theory Spec2Isabelle
  imports Main "HOL-Library.Word" "HOL-Library.List_Lexorder" "HOL-Library.Multiset"
begin

unbundle bit_operations_syntax

section \<open>JavaScript strings and values\<close>

text \<open>
  A JavaScript string is a sequence of UTF-16 code units. String comparison (as used by
  \<^verbatim>\<open>Array.prototype.sort\<close> without a comparator) is the lexicographic order on code
  units, which is the order \<open>HOL-Library.List_Lexorder\<close> puts on \<open>16 word list\<close>.
\<close>

type_synonym jschar = "16 word"
type_synonym jsstring = "jschar list"
type_synonym byte = "8 word"

definition chr :: "char \<Rightarrow> jschar" where
  "chr c = of_char c"

definition ascii :: "string \<Rightarrow> jsstring" where
  "ascii s = map chr s"

text \<open>
  The values \<^verbatim>\<open>JSON.parse\<close> can return, and \<^verbatim>\<open>undefined\<close>. A number is kept as the
  text \<^verbatim>\<open>Number.prototype.toString\<close> gives for it (that text determines the number, up to
  the sign of zero, which \<^verbatim>\<open>===\<close> ignores as well). An object is the list of its own
  properties in creation order, with distinct keys.
\<close>

datatype jsvalue =
    JUndefined
  | JNull
  | JBool bool
  | JNum jsstring
  | JStr jsstring
  | JArr "jsvalue list"
  | JObj "(jsstring \<times> jsvalue) list"

type_synonym props = "(jsstring \<times> jsvalue) list"

text \<open>Every \<^verbatim>\<open>throw\<close> of the sources, and every exception of a library call they make.\<close>

datatype js_error =
    InvalidMessageStreamFormat    \<comment> \<open>\<^verbatim>\<open>new Error('Invalid message stream format')\<close>\<close>
  | InvalidEncryptedTextFormat    \<comment> \<open>\<^verbatim>\<open>new Error('Invalid encrypted text format')\<close>\<close>
  | InvalidIV                     \<comment> \<open>\<^verbatim>\<open>createDecipheriv\<close> with an IV that is not 16 bytes\<close>
  | InvalidHexLength              \<comment> \<open>\<^verbatim>\<open>decipher.update\<close> with \<^verbatim>\<open>'hex'\<close> input of odd length\<close>
  | JSONSyntaxError               \<comment> \<open>\<^verbatim>\<open>JSON.parse\<close> on text that is not JSON\<close>
  | TypeError                     \<comment> \<open>destructuring null, converting an object without a usable toString\<close>
  | ValidationError               \<comment> \<open>a document Mongoose rejects against its schema\<close>
  | DuplicateKey                  \<comment> \<open>a second document for a value of a unique index\<close>
  | StoreError                    \<comment> \<open>a database operation that fails (connection lost, timeout)\<close>
  | FailedToAddRecord js_error    \<comment> \<open>\<^verbatim>\<open>new Error(`Failed to add record: ${error.message}`)\<close>\<close>

section \<open>utility/messageGenerator.js: the batch codec\<close>

text \<open>\<^verbatim>\<open>String.prototype.split\<close> with a one-character separator.\<close>

fun split :: "'a \<Rightarrow> 'a list \<Rightarrow> 'a list list" where
  "split d [] = [[]]"
| "split d (c # cs) =
     (if c = d then [] # split d cs
      else (case split d cs of [] \<Rightarrow> [[c]] | p # ps \<Rightarrow> (c # p) # ps))"

text \<open>\<^verbatim>\<open>Array.prototype.join\<close> on an array of strings.\<close>

fun join :: "'a list \<Rightarrow> 'a list list \<Rightarrow> 'a list" where
  "join d [] = []"
| "join d [x] = x"
| "join d (x # y # ys) = x @ d @ join d (y # ys)"

text \<open>
  The code units \<^verbatim>\<open>String.prototype.trim\<close> strips: ECMAScript's WhiteSpace and
  LineTerminator productions (all of them lie in the Basic Multilingual Plane).
\<close>

definition is_ws :: "jschar \<Rightarrow> bool" where
  "is_ws c \<longleftrightarrow>
     c \<in> {0x09, 0x0A, 0x0B, 0x0C, 0x0D, 0x20, 0xA0, 0x1680,
          0x2028, 0x2029, 0x202F, 0x205F, 0x3000, 0xFEFF}
     \<or> (0x2000 \<le> c \<and> c \<le> 0x200A)"

definition trim :: "jsstring \<Rightarrow> jsstring" where
  "trim s = rev (dropWhile is_ws (rev (dropWhile is_ws s)))"

text \<open>
  \<^verbatim>\<open>createMessageStream\<close> joins the batch \<^verbatim>\<open>generateMessageBatch()\<close> returns with
  \<^verbatim>\<open>'|'\<close>. The batch is randomly generated, so the model takes it as its argument.
\<close>

definition createMessageStream :: "jsstring list \<Rightarrow> jsstring" where
  "createMessageStream encryptedMessages = join (ascii ''|'') encryptedMessages"

text \<open>
  \<^verbatim>\<open>parseMessageStream\<close>: a falsy or non-string argument throws; the \<^verbatim>\<open>catch\<close> logs
  and rethrows the same error. The only falsy string is the empty one.
\<close>

fun parseMessageStream :: "jsvalue \<Rightarrow> js_error + jsstring list" where
  "parseMessageStream (JStr messageStream) =
     (if messageStream = [] then Inl InvalidMessageStreamFormat
      else Inr (filter (\<lambda>msg. length (trim msg) > 0) (split (chr CHR ''|'') messageStream)))"
| "parseMessageStream _ = Inl InvalidMessageStreamFormat"

section \<open>Language operations the sources rely on\<close>

text \<open>\<^verbatim>\<open>obj[key]\<close> for a key the prototype chain does not define: the own property, or \<^verbatim>\<open>undefined\<close>.\<close>

definition lookup :: "props \<Rightarrow> jsstring \<Rightarrow> jsvalue" where
  "lookup obj key = (case map_of obj key of None \<Rightarrow> JUndefined | Some v \<Rightarrow> v)"

text \<open>The first exception of a sequence of evaluations, or all their results.\<close>

fun sequence :: "('e + 'a) list \<Rightarrow> 'e + 'a list" where
  "sequence [] = Inr []"
| "sequence (Inl e # rs) = Inl e"
| "sequence (Inr x # rs) = (case sequence rs of Inl e \<Rightarrow> Inl e | Inr xs \<Rightarrow> Inr (x # xs))"

text \<open>
  The conversion to string of a template literal \<^verbatim>\<open>`${v}`\<close>. An array is joined with
  commas, a null or undefined element giving the empty string. A plain object gives
  \<^verbatim>\<open>[object Object]\<close> through \<^verbatim>\<open>Object.prototype.toString\<close>, unless it has an own property
  \<^verbatim>\<open>toString\<close>: a parsed value is never callable, \<^verbatim>\<open>valueOf\<close> then returns no primitive
  either, and the conversion throws a TypeError.
\<close>

fun toStr :: "jsvalue \<Rightarrow> js_error + jsstring" where
  "toStr JUndefined = Inr (ascii ''undefined'')"
| "toStr JNull = Inr (ascii ''null'')"
| "toStr (JBool b) = Inr (if b then ascii ''true'' else ascii ''false'')"
| "toStr (JNum r) = Inr r"
| "toStr (JStr s) = Inr s"
| "toStr (JArr xs) =
     (case sequence (map (\<lambda>x. if x = JUndefined \<or> x = JNull then Inr [] else toStr x) xs) of
        Inl e \<Rightarrow> Inl e
      | Inr parts \<Rightarrow> Inr (join (ascii '','') parts))"
| "toStr (JObj ps) =
     (if ascii ''toString'' \<in> set (map fst ps) then Inl TypeError
      else Inr (ascii ''[object Object]''))"

text \<open>The decimal text of an array index.\<close>

fun decimal :: "nat \<Rightarrow> jsstring" where
  "decimal n =
     (if n < 10 then [chr CHR ''0'' + of_nat n]
      else decimal (n div 10) @ [chr CHR ''0'' + of_nat (n mod 10)])"

text \<open>
  The own enumerable properties a destructuring pattern \<^verbatim>\<open>{ secret_key, ...rest } = v\<close>
  reads: \<^verbatim>\<open>null\<close> and \<^verbatim>\<open>undefined\<close> throw, a number or boolean has none, a string or an
  array has its indices.
\<close>

fun own_props :: "jsvalue \<Rightarrow> js_error + props" where
  "own_props JUndefined = Inl TypeError"
| "own_props JNull = Inl TypeError"
| "own_props (JBool b) = Inr []"
| "own_props (JNum r) = Inr []"
| "own_props (JStr s) = Inr (zip (map decimal [0..<length s]) (map (\<lambda>c. JStr [c]) s))"
| "own_props (JArr xs) = Inr (zip (map decimal [0..<length xs]) xs)"
| "own_props (JObj ps) = Inr ps"

text \<open>The rest object of \<^verbatim>\<open>{ secret_key, ...originalMessage }\<close>: every property but the named one.\<close>

definition rest_without :: "jsstring \<Rightarrow> props \<Rightarrow> props" where
  "rest_without key obj = filter (\<lambda>p. fst p \<noteq> key) obj"

text \<open>The assignment \<^verbatim>\<open>obj[key] = v\<close>: an existing property keeps its place, a new one is appended.\<close>

definition assign :: "props \<Rightarrow> jsstring \<Rightarrow> jsvalue \<Rightarrow> props" where
  "assign obj key v =
     (if key \<in> set (map fst obj) then map (\<lambda>p. if fst p = key then (key, v) else p) obj
      else obj @ [(key, v)])"

section \<open>utility/crypto.js: canonical hash and tag validation\<close>

text \<open>
  \<^verbatim>\<open>createHash\<close>. The SHA-256 primitive belongs to the runtime, not to the repository: the
  model takes as \<open>sha256\<close> the function from a string to the lower-case hex digest of its
  UTF-8 bytes. \<open>canonical\<close> is the string \<^verbatim>\<open>objString\<close> that is digested. The \<^verbatim>\<open>catch\<close>
  logs and rethrows.
\<close>

definition canonical :: "props \<Rightarrow> js_error + jsstring" where
  "canonical obj =
     (let sortedKeys = sort (map fst obj) in
      case sequence (map (\<lambda>key. case toStr (lookup obj key) of
                                    Inl e \<Rightarrow> Inl e
                                  | Inr v \<Rightarrow> Inr (key @ ascii '':'' @ v)) sortedKeys) of
        Inl e \<Rightarrow> Inl e
      | Inr parts \<Rightarrow> Inr (join (ascii ''|'') parts))"

definition createHash :: "(jsstring \<Rightarrow> jsstring) \<Rightarrow> props \<Rightarrow> js_error + jsstring" where
  "createHash sha256 obj =
     (case canonical obj of Inl e \<Rightarrow> Inl e | Inr objString \<Rightarrow> Inr (sha256 objString))"

text \<open>
  \<^verbatim>\<open>validateSecretKey\<close>: any exception inside gives \<^verbatim>\<open>false\<close>; \<^verbatim>\<open>===\<close> against the hex digest
  holds only for a string with the same code units.
\<close>

definition validateSecretKey :: "(jsstring \<Rightarrow> jsstring) \<Rightarrow> jsvalue \<Rightarrow> bool" where
  "validateSecretKey sha256 messageWithKey =
     (case own_props messageWithKey of
        Inl e \<Rightarrow> False
      | Inr ps \<Rightarrow>
          (let secret_key = lookup ps (ascii ''secret_key'');
               originalMessage = rest_without (ascii ''secret_key'') ps
           in case createHash sha256 originalMessage of
                Inl e \<Rightarrow> False
              | Inr expectedHash \<Rightarrow> secret_key = JStr expectedHash))"

text \<open>
  \<^verbatim>\<open>createMessageWithHash\<close> (utility/messageGenerator.js): \<^verbatim>\<open>{ ...originalMessage, secret_key }\<close>,
  the message with its tag assigned (a message that already has the property keeps it in
  its place, with the new value).
\<close>

definition createMessageWithHash :: "(jsstring \<Rightarrow> jsstring) \<Rightarrow> props \<Rightarrow> js_error + props" where
  "createMessageWithHash sha256 originalMessage =
     (case createHash sha256 originalMessage of
        Inl e \<Rightarrow> Inl e
      | Inr secret_key \<Rightarrow> Inr (assign originalMessage (ascii ''secret_key'') (JStr secret_key)))"

section \<open>utility/crypto.js: encryption\<close>

subsection \<open>Buffer encodings of the runtime\<close>

text \<open>
  \<^verbatim>\<open>buf.toString('hex')\<close>: two lower-case digits for each byte. Decoding
  (\<^verbatim>\<open>Buffer.from(s, 'hex')\<close>, and the \<^verbatim>\<open>'hex'\<close> input encoding of a decipher once the length
  of its input has been checked) reads pairs of digits of either case and stops at the
  first pair that is not hexadecimal; a last single digit is dropped.
\<close>

definition hex_digit :: "nat \<Rightarrow> jschar" where
  "hex_digit n = (if n < 10 then chr CHR ''0'' + of_nat n else chr CHR ''a'' + of_nat (n - 10))"

definition hex_encode :: "byte list \<Rightarrow> jsstring" where
  "hex_encode bs = concat (map (\<lambda>b. [hex_digit (unat b div 16), hex_digit (unat b mod 16)]) bs)"

definition hex_value :: "jschar \<Rightarrow> nat option" where
  "hex_value c =
     (if chr CHR ''0'' \<le> c \<and> c \<le> chr CHR ''9'' then Some (unat c - 48)
      else if chr CHR ''a'' \<le> c \<and> c \<le> chr CHR ''f'' then Some (unat c - 87)
      else if chr CHR ''A'' \<le> c \<and> c \<le> chr CHR ''F'' then Some (unat c - 55)
      else None)"

fun hex_decode :: "jsstring \<Rightarrow> byte list" where
  "hex_decode (a # b # cs) =
     (case hex_value a of
        None \<Rightarrow> []
      | Some h \<Rightarrow> (case hex_value b of
                    None \<Rightarrow> []
                  | Some l \<Rightarrow> of_nat (h * 16 + l) # hex_decode cs))"
| "hex_decode _ = []"

text \<open>
  The \<^verbatim>\<open>'utf8'\<close> input encoding of a cipher: the string is read as code points, a
  surrogate pair giving one code point and an unpaired surrogate U+FFFD, and each code
  point is written as one to four bytes.
\<close>

definition is_high :: "jschar \<Rightarrow> bool" where
  "is_high u \<longleftrightarrow> 0xD800 \<le> u \<and> u \<le> 0xDBFF"

definition is_low :: "jschar \<Rightarrow> bool" where
  "is_low u \<longleftrightarrow> 0xDC00 \<le> u \<and> u \<le> 0xDFFF"

fun code_points :: "jsstring \<Rightarrow> nat list" where
  "code_points [] = []"
| "code_points [u] = (if is_high u \<or> is_low u then [0xFFFD] else [unat u])"
| "code_points (u # v # us) =
     (if is_high u \<and> is_low v
      then (0x10000 + (unat u - 0xD800) * 0x400 + (unat v - 0xDC00)) # code_points us
      else if is_high u \<or> is_low u then 0xFFFD # code_points (v # us)
      else unat u # code_points (v # us))"

definition utf8_bytes :: "nat \<Rightarrow> nat list" where
  "utf8_bytes cp =
     (if cp < 0x80 then [cp]
      else if cp < 0x800 then [0xC0 + cp div 0x40, 0x80 + cp mod 0x40]
      else if cp < 0x10000 then
        [0xE0 + cp div 0x1000, 0x80 + cp div 0x40 mod 0x40, 0x80 + cp mod 0x40]
      else
        [0xF0 + cp div 0x40000, 0x80 + cp div 0x1000 mod 0x40,
         0x80 + cp div 0x40 mod 0x40, 0x80 + cp mod 0x40])"

definition utf8_encode :: "jsstring \<Rightarrow> byte list" where
  "utf8_encode s = map of_nat (concat (map utf8_bytes (code_points s)))"

text \<open>
  The \<^verbatim>\<open>'utf8'\<close> output encoding of a decipher: the bytes are decoded as the WHATWG
  Encoding Standard prescribes. A byte that cannot start or continue a sequence gives
  U+FFFD, and decoding resumes at the byte that did not fit; over-long forms, encoded
  surrogates and code points above U+10FFFF are excluded by the range of the second
  byte. A code point above U+FFFF becomes a surrogate pair.
\<close>

definition cont :: "nat \<Rightarrow> bool" where
  "cont b \<longleftrightarrow> 0x80 \<le> b \<and> b \<le> 0xBF"

definition second3 :: "nat \<Rightarrow> nat \<Rightarrow> bool" where
  "second3 b0 b1 \<longleftrightarrow>
     (if b0 = 0xE0 then 0xA0 \<le> b1 \<and> b1 \<le> 0xBF
      else if b0 = 0xED then 0x80 \<le> b1 \<and> b1 \<le> 0x9F
      else cont b1)"

definition second4 :: "nat \<Rightarrow> nat \<Rightarrow> bool" where
  "second4 b0 b1 \<longleftrightarrow>
     (if b0 = 0xF0 then 0x90 \<le> b1 \<and> b1 \<le> 0xBF
      else if b0 = 0xF4 then 0x80 \<le> b1 \<and> b1 \<le> 0x8F
      else cont b1)"

fun decode_points :: "nat list \<Rightarrow> nat list" where
  "decode_points [] = []"
| "decode_points (b0 # bs) =
     (if b0 < 0x80 then b0 # decode_points bs
      else if 0xC2 \<le> b0 \<and> b0 \<le> 0xDF then
        (case bs of
           [] \<Rightarrow> [0xFFFD]
         | b1 # r1 \<Rightarrow>
             if cont b1 then ((b0 - 0xC0) * 0x40 + (b1 - 0x80)) # decode_points r1
             else 0xFFFD # decode_points bs)
      else if 0xE0 \<le> b0 \<and> b0 \<le> 0xEF then
        (case bs of
           [] \<Rightarrow> [0xFFFD]
         | b1 # r1 \<Rightarrow>
             if second3 b0 b1 then
               (case r1 of
                  [] \<Rightarrow> [0xFFFD]
                | b2 # r2 \<Rightarrow>
                    if cont b2
                    then ((b0 - 0xE0) * 0x1000 + (b1 - 0x80) * 0x40 + (b2 - 0x80)) # decode_points r2
                    else 0xFFFD # decode_points r1)
             else 0xFFFD # decode_points bs)
      else if 0xF0 \<le> b0 \<and> b0 \<le> 0xF4 then
        (case bs of
           [] \<Rightarrow> [0xFFFD]
         | b1 # r1 \<Rightarrow>
             if second4 b0 b1 then
               (case r1 of
                  [] \<Rightarrow> [0xFFFD]
                | b2 # r2 \<Rightarrow>
                    if cont b2 then
                      (case r2 of
                         [] \<Rightarrow> [0xFFFD]
                       | b3 # r3 \<Rightarrow>
                           if cont b3
                           then ((b0 - 0xF0) * 0x40000 + (b1 - 0x80) * 0x1000
                                 + (b2 - 0x80) * 0x40 + (b3 - 0x80)) # decode_points r3
                           else 0xFFFD # decode_points r2)
                    else 0xFFFD # decode_points r1)
             else 0xFFFD # decode_points bs)
      else 0xFFFD # decode_points bs)"

definition utf16_units :: "nat \<Rightarrow> jsstring" where
  "utf16_units cp =
     (if cp < 0x10000 then [of_nat cp]
      else [of_nat (0xD800 + (cp - 0x10000) div 0x400), of_nat (0xDC00 + (cp - 0x10000) mod 0x400)])"

definition utf8_decode :: "byte list \<Rightarrow> jsstring" where
  "utf8_decode bs = concat (map utf16_units (decode_points (map unat bs)))"

text \<open>A Unicode scalar value: a code point that is not a surrogate.\<close>

definition scalar :: "nat \<Rightarrow> bool" where
  "scalar cp \<longleftrightarrow> cp < 0x110000 \<and> \<not> (0xD800 \<le> cp \<and> cp \<le> 0xDFFF)"

text \<open>\<^verbatim>\<open>String.prototype.isWellFormed\<close>: the string has no unpaired surrogate.\<close>

fun well_formed :: "jsstring \<Rightarrow> bool" where
  "well_formed [] = True"
| "well_formed [u] = (\<not> is_high u \<and> \<not> is_low u)"
| "well_formed (u # v # us) =
     (if is_high u then is_low v \<and> well_formed us
      else \<not> is_low u \<and> well_formed (v # us))"

subsection \<open>The cipher\<close>

text \<open>
  AES-256 in counter mode combines the text with a key stream by exclusive or, byte by
  byte, for encryption and decryption alike. The key stream is computed by the runtime
  (\<^verbatim>\<open>scryptSync(SECRET_KEY, 'salt', 32)\<close> gives the key, the same for every call); the model
  takes as \<open>keystream iv i\<close> its byte number \<open>i\<close> for that key and the initialization
  vector \<open>iv\<close>. Both \<^verbatim>\<open>createCipheriv\<close> and \<^verbatim>\<open>createDecipheriv\<close> throw unless the vector has
  16 bytes.
\<close>

definition ctr :: "(byte list \<Rightarrow> nat \<Rightarrow> byte) \<Rightarrow> byte list \<Rightarrow> byte list \<Rightarrow> byte list" where
  "ctr keystream iv bs = map (\<lambda>(b, i). b XOR keystream iv i) (zip bs [0..<length bs])"

text \<open>
  \<^verbatim>\<open>encrypt\<close>. The argument \<open>iv\<close> is the value of \<^verbatim>\<open>crypto.randomBytes(IV_LENGTH)\<close> in this
  call. The \<^verbatim>\<open>catch\<close> logs and rethrows.
\<close>

definition encrypt :: "(byte list \<Rightarrow> nat \<Rightarrow> byte) \<Rightarrow> byte list \<Rightarrow> jsstring \<Rightarrow> js_error + jsstring" where
  "encrypt keystream iv text =
     (if length iv \<noteq> 16 then Inl InvalidIV
      else let encrypted = hex_encode (ctr keystream iv (utf8_encode text))
           in Inr (hex_encode iv @ ascii '':'' @ encrypted))"

text \<open>
  \<^verbatim>\<open>decrypt\<close>. \<^verbatim>\<open>Buffer.from(textParts[0], 'hex')\<close> decodes leniently, and the decipher is
  created from what it gives; \<^verbatim>\<open>decipher.update(encrypted, 'hex', 'utf8')\<close> then throws
  (ERR_INVALID_ARG_VALUE) when the hex text has an odd number of characters, and decodes
  leniently otherwise. The \<^verbatim>\<open>catch\<close> logs and rethrows.
\<close>

definition decrypt :: "(byte list \<Rightarrow> nat \<Rightarrow> byte) \<Rightarrow> jsstring \<Rightarrow> js_error + jsstring" where
  "decrypt keystream encryptedText =
     (let textParts = split (chr CHR '':'') encryptedText in
      if length textParts \<noteq> 2 then Inl InvalidEncryptedTextFormat
      else let iv = hex_decode (textParts ! 0);
               encrypted = textParts ! 1
           in if length iv \<noteq> 16 then Inl InvalidIV
              else if odd (length encrypted) then Inl InvalidHexLength
              else Inr (utf8_decode (ctr keystream iv (hex_decode encrypted))))"

section \<open>What the runtime and the environment supply\<close>

text \<open>
  Library functions the repository calls but does not define are parameters of the model:
  \<^item> \<open>rt_sha256\<close>: the hex SHA-256 digest of a string's UTF-8 bytes;
  \<^item> \<open>rt_keystream\<close>: the AES-256-CTR key stream for the derived key (see \<open>ctr\<close>);
  \<^item> \<open>rt_JSON_parse\<close>: \<^verbatim>\<open>JSON.parse\<close>, a value or a SyntaxError;
  \<^item> \<open>rt_toISOString\<close>: \<^verbatim>\<open>Date.prototype.toISOString\<close> of a time in milliseconds;
  \<^item> \<open>rt_localOffset\<close>: what local time is ahead of UTC at a time, in milliseconds;
  \<^item> \<open>rt_castString\<close>: the string Mongoose stores for a value at a path declared
    \<^verbatim>\<open>{ type: String, required: true }\<close>, or \<open>None\<close> when the cast or the required
    validator rejects the value (\<^verbatim>\<open>undefined\<close> stands for a missing field).
\<close>

record runtime =
  rt_sha256 :: "jsstring \<Rightarrow> jsstring"
  rt_keystream :: "byte list \<Rightarrow> nat \<Rightarrow> byte"
  rt_JSON_parse :: "jsstring \<Rightarrow> js_error + jsvalue"
  rt_toISOString :: "nat \<Rightarrow> jsstring"
  rt_localOffset :: "nat \<Rightarrow> int"
  rt_castString :: "jsvalue \<Rightarrow> jsstring option"

text \<open>
  What one call of \<^verbatim>\<open>addRecord\<close> reads from its environment: the clock, the random
  suffix of the record identifier (\<^verbatim>\<open>Math.random().toString(36).substr(2, 9)\<close>), and
  whether each database operation it awaits is rejected by the database. A rejected
  operation leaves the collection as it was.
\<close>

record call_env =
  now :: nat
  random_suffix :: jsstring
  findOne_fails :: bool
  write_fails :: bool
  route_inc_fails :: bool
  route_push_fails :: bool
  name_inc_fails :: bool
  name_push_fails :: bool

section \<open>models/TimeSeriesData.js: the minute buckets\<close>

text \<open>\<^verbatim>\<open>MessageRecordSchema\<close>: the sub-document stored for one message.\<close>

record message_record =
  name :: jsstring
  origin :: jsstring
  destination :: jsstring
  timestamp :: nat
  recordId :: jsstring

text \<open>
  \<^verbatim>\<open>TimeSeriesDataSchema\<close>. \<open>bucket_info\<close> is what \<^verbatim>\<open>createMinuteBucket\<close> returns and
  \<^verbatim>\<open>create\<close> spreads into the document. The fields \<^verbatim>\<open>yearMonth\<close> and \<^verbatim>\<open>hour\<close> (local-time
  renderings of the same date), \<^verbatim>\<open>createdAt\<close> and \<^verbatim>\<open>updatedAt\<close> are written but never read
  by the operations below and are left out. A counter entry \<^verbatim>\<open>{ route, count }\<close> or
  \<^verbatim>\<open>{ name, count }\<close> is a pair.
\<close>

record bucket_info =
  minuteBucket :: jsstring
  bucket_timestamp :: nat
  dateOnly :: jsstring

record bucket = bucket_info +
  records :: "message_record list"
  recordCount :: nat
  routes :: "(jsstring \<times> nat) list"
  nameFrequency :: "(jsstring \<times> nat) list"
  firstRecordTime :: nat
  lastRecordTime :: nat

text \<open>The collection: its documents in insertion order.\<close>

type_synonym collection = "bucket list"

text \<open>
  \<^verbatim>\<open>createMinuteBucket\<close>: \<^verbatim>\<open>setSeconds(0, 0)\<close> clears the seconds and milliseconds of the
  local time, which moves the time back by what the local time is past its minute.
\<close>

definition createMinuteBucket :: "runtime \<Rightarrow> nat \<Rightarrow> bucket_info" where
  "createMinuteBucket rt ts =
     (let date = nat (int ts - (int ts + rt_localOffset rt ts) mod 60000) in
      \<lparr> minuteBucket = take 16 (rt_toISOString rt date),
        bucket_timestamp = date,
        dateOnly = take 10 (rt_toISOString rt date) \<rparr>)"

subsection \<open>The database operations used\<close>

text \<open>\<^verbatim>\<open>findOne({ minuteBucket })\<close>: the first document with that key, or \<^verbatim>\<open>null\<close>.\<close>

definition findOne :: "jsstring \<Rightarrow> collection \<Rightarrow> bucket option" where
  "findOne key db = find (\<lambda>b. minuteBucket b = key) db"

text \<open>
  \<^verbatim>\<open>updateOne(filter, update)\<close> and \<^verbatim>\<open>findOneAndUpdate(filter, update, { new: true })\<close>:
  the first document that matches the filter is updated; the second also returns the
  updated document, or \<^verbatim>\<open>null\<close> when none matches.
\<close>

fun updateOne :: "(bucket \<Rightarrow> bool) \<Rightarrow> (bucket \<Rightarrow> bucket) \<Rightarrow> collection \<Rightarrow> collection" where
  "updateOne flt upd [] = []"
| "updateOne flt upd (b # bs) = (if flt b then upd b # bs else b # updateOne flt upd bs)"

definition findOneAndUpdate ::
  "(bucket \<Rightarrow> bool) \<Rightarrow> (bucket \<Rightarrow> bucket) \<Rightarrow> collection \<Rightarrow> bucket option \<times> collection" where
  "findOneAndUpdate flt upd db = (map_option upd (find flt db), updateOne flt upd db)"

text \<open>\<^verbatim>\<open>create(doc)\<close>: \<^verbatim>\<open>minuteBucket\<close> is declared \<^verbatim>\<open>unique\<close>.\<close>

definition create :: "bucket \<Rightarrow> collection \<Rightarrow> js_error + bucket \<times> collection" where
  "create doc db =
     (if minuteBucket doc \<in> set (map minuteBucket db) then Inl DuplicateKey
      else Inr (doc, db @ [doc]))"

text \<open>
  \<^verbatim>\<open>{ $inc: { 'routes.$.count': 1 } }\<close>: the positional operator selects the first entry
  that matches the key named in the filter.
\<close>

fun inc_first :: "jsstring \<Rightarrow> (jsstring \<times> nat) list \<Rightarrow> (jsstring \<times> nat) list" where
  "inc_first k [] = []"
| "inc_first k (e # es) = (if fst e = k then (fst e, snd e + 1) # es else e # inc_first k es)"

subsection \<open>The static methods\<close>

text \<open>
  \<^verbatim>\<open>updateAggregatedData\<close>: four updates awaited in turn; the first one that is rejected
  ends the \<^verbatim>\<open>try\<close> block, and the \<^verbatim>\<open>catch\<close> logs the error and returns normally. A filter
  \<^verbatim>\<open>'routes.route': route\<close> holds when some entry has that route, a filter
  \<^verbatim>\<open>'routes.route': { $ne: route }\<close> when none has.
\<close>

definition updateAggregatedData ::
  "call_env \<Rightarrow> jsstring \<Rightarrow> jsstring \<Rightarrow> jsstring \<Rightarrow> collection \<Rightarrow> collection" where
  "updateAggregatedData env key route nm db =
     (if route_inc_fails env then db
      else let db1 = updateOne (\<lambda>b. minuteBucket b = key \<and> route \<in> set (map fst (routes b)))
                       (\<lambda>b. b\<lparr>routes := inc_first route (routes b)\<rparr>) db
      in if route_push_fails env then db1
      else let db2 = updateOne (\<lambda>b. minuteBucket b = key \<and> route \<notin> set (map fst (routes b)))
                       (\<lambda>b. b\<lparr>routes := routes b @ [(route, 1)]\<rparr>) db1
      in if name_inc_fails env then db2
      else let db3 = updateOne (\<lambda>b. minuteBucket b = key \<and> nm \<in> set (map fst (nameFrequency b)))
                       (\<lambda>b. b\<lparr>nameFrequency := inc_first nm (nameFrequency b)\<rparr>) db2
      in if name_push_fails env then db3
      else updateOne (\<lambda>b. minuteBucket b = key \<and> nm \<notin> set (map fst (nameFrequency b)))
             (\<lambda>b. b\<lparr>nameFrequency := nameFrequency b @ [(nm, 1)]\<rparr>) db3)"

text \<open>
  The sub-document Mongoose builds from \<^verbatim>\<open>{ ...messageData, timestamp, recordId }\<close>: the
  three schema fields cast to strings (fields the schema does not declare are dropped),
  or a validation error.
\<close>

definition cast_record :: "runtime \<Rightarrow> props \<Rightarrow> nat \<Rightarrow> jsstring \<Rightarrow> message_record option" where
  "cast_record rt messageData ts rid =
     (case rt_castString rt (lookup messageData (ascii ''name'')) of
        None \<Rightarrow> None
      | Some n \<Rightarrow>
     (case rt_castString rt (lookup messageData (ascii ''origin'')) of
        None \<Rightarrow> None
      | Some orig \<Rightarrow>
     (case rt_castString rt (lookup messageData (ascii ''destination'')) of
        None \<Rightarrow> None
      | Some dest \<Rightarrow>
          Some \<lparr> name = n, origin = orig, destination = dest, timestamp = ts, recordId = rid \<rparr>)))"

text \<open>
  The \<^verbatim>\<open>try\<close> block of \<^verbatim>\<open>addRecord\<close> up to the counters: look the bucket up, then append
  to it or create it. It returns the document the write returned and the new collection.
\<close>

definition write_record ::
  "runtime \<Rightarrow> call_env \<Rightarrow> props \<Rightarrow> collection \<Rightarrow> js_error + (bucket option \<times> message_record \<times> collection)" where
  "write_record rt env messageData db =
     (let ts = now env;
          bucketInfo = createMinuteBucket rt ts;
          rid = decimal ts @ ascii ''-'' @ random_suffix env
      in if findOne_fails env then Inl StoreError
         else case cast_record rt messageData ts rid of
                None \<Rightarrow> Inl ValidationError
              | Some record \<Rightarrow>
                  if write_fails env then Inl StoreError
                  else (case findOne (minuteBucket bucketInfo) db of
                          Some existing \<Rightarrow>
                            (case findOneAndUpdate (\<lambda>b. minuteBucket b = minuteBucket bucketInfo)
                                    (\<lambda>b. b\<lparr>records := records b @ [record],
                                            recordCount := recordCount b + 1,
                                            lastRecordTime := ts\<rparr>) db of
                               (result, db') \<Rightarrow> Inr (result, record, db'))
                        | None \<Rightarrow>
                            (case create (bucket_info.extend bucketInfo
                                            (bucket.fields [record] 1 [] [] ts ts)) db of
                               Inl e \<Rightarrow> Inl e
                             | Inr (result, db') \<Rightarrow> Inr (Some result, record, db'))))"

text \<open>
  \<^verbatim>\<open>addRecord\<close>. The route string is built before the \<^verbatim>\<open>try\<close>, so an exception of the
  template literal escapes as it is; an exception inside the \<^verbatim>\<open>try\<close> is wrapped. The name
  \<^verbatim>\<open>updateAggregatedData\<close> receives is cast by Mongoose as it was for the record.
\<close>

definition addRecord ::
  "runtime \<Rightarrow> call_env \<Rightarrow> props \<Rightarrow> collection \<Rightarrow> (js_error + bucket option) \<times> collection" where
  "addRecord rt env messageData db =
     (case toStr (lookup messageData (ascii ''origin'')) of
        Inl e \<Rightarrow> (Inl e, db)
      | Inr orig \<Rightarrow>
     (case toStr (lookup messageData (ascii ''destination'')) of
        Inl e \<Rightarrow> (Inl e, db)
      | Inr dest \<Rightarrow>
          (let route = orig @ ascii ''->'' @ dest in
           case write_record rt env messageData db of
             Inl error \<Rightarrow> (Inl (FailedToAddRecord error), db)
           | Inr (result, record, db') \<Rightarrow>
               (Inr result,
                updateAggregatedData env (minuteBucket (createMinuteBucket rt (now env)))
                  route (name record) db'))))"

text \<open>No counter update of the call is rejected by the database.\<close>

definition counters_reachable :: "call_env \<Rightarrow> bool" where
  "counters_reachable env \<longleftrightarrow>
     \<not> route_inc_fails env \<and> \<not> route_push_fails env
     \<and> \<not> name_inc_fails env \<and> \<not> name_push_fails env"

section \<open>models/TimeSeriesData.js: calls that interleave\<close>

text \<open>
  \<^verbatim>\<open>addRecord\<close> awaits six database operations in turn, and between two of them the event
  loop may run the operations of other calls. A call in flight is at one of these stages,
  which hold its local variables: the route string, the name, the lookup's answer, and
  the document the write returned.
\<close>

datatype stage =
    AtFindOne
  | AtWrite jsstring "bucket option"
  | AtRouteInc jsstring jsstring "bucket option"
  | AtRoutePush jsstring jsstring "bucket option"
  | AtNameInc jsstring jsstring "bucket option"
  | AtNamePush jsstring jsstring "bucket option"
  | Returned "bucket option"
  | Thrown js_error

record invocation =
  inv_env :: call_env
  inv_data :: props
  inv_stage :: stage

definition invoke :: "call_env \<Rightarrow> props \<Rightarrow> invocation" where
  "invoke env messageData = \<lparr> inv_env = env, inv_data = messageData, inv_stage = AtFindOne \<rparr>"

text \<open>The route string \<^verbatim>\<open>`${messageData.origin}->${messageData.destination}`\<close>.\<close>

definition route_of :: "props \<Rightarrow> js_error + jsstring" where
  "route_of messageData =
     (case toStr (lookup messageData (ascii ''origin'')) of
        Inl e \<Rightarrow> Inl e
      | Inr orig \<Rightarrow>
          (case toStr (lookup messageData (ascii ''destination'')) of
             Inl e \<Rightarrow> Inl e
           | Inr dest \<Rightarrow> Inr (orig @ ascii ''->'' @ dest)))"

text \<open>
  The next database operation of a call, with the code that follows it up to the next
  \<^verbatim>\<open>await\<close>. The first step also covers the synchronous start of the call.
\<close>

definition advance :: "runtime \<Rightarrow> invocation \<Rightarrow> collection \<Rightarrow> invocation \<times> collection" where
  "advance rt c db =
     (let env = inv_env c;
          messageData = inv_data c;
          ts = now env;
          key = minuteBucket (createMinuteBucket rt ts);
          rid = decimal ts @ ascii ''-'' @ random_suffix env
      in case inv_stage c of
           AtFindOne \<Rightarrow>
             (case route_of messageData of
                Inl e \<Rightarrow> (c\<lparr>inv_stage := Thrown e\<rparr>, db)
              | Inr route \<Rightarrow>
                  if findOne_fails env
                  then (c\<lparr>inv_stage := Thrown (FailedToAddRecord StoreError)\<rparr>, db)
                  else (c\<lparr>inv_stage := AtWrite route (findOne key db)\<rparr>, db))
         | AtWrite route found \<Rightarrow>
             (case cast_record rt messageData ts rid of
                None \<Rightarrow> (c\<lparr>inv_stage := Thrown (FailedToAddRecord ValidationError)\<rparr>, db)
              | Some record \<Rightarrow>
                  if write_fails env
                  then (c\<lparr>inv_stage := Thrown (FailedToAddRecord StoreError)\<rparr>, db)
                  else (case found of
                          Some existing \<Rightarrow>
                            (case findOneAndUpdate (\<lambda>b. minuteBucket b = key)
                                    (\<lambda>b. b\<lparr>records := records b @ [record],
                                            recordCount := recordCount b + 1,
                                            lastRecordTime := ts\<rparr>) db of
                               (result, db') \<Rightarrow>
                                 (c\<lparr>inv_stage := AtRouteInc route (name record) result\<rparr>, db'))
                        | None \<Rightarrow>
                            (case create (bucket_info.extend (createMinuteBucket rt ts)
                                            (bucket.fields [record] 1 [] [] ts ts)) db of
                               Inl e \<Rightarrow> (c\<lparr>inv_stage := Thrown (FailedToAddRecord e)\<rparr>, db)
                             | Inr (result, db') \<Rightarrow>
                                 (c\<lparr>inv_stage := AtRouteInc route (name record) (Some result)\<rparr>,
                                  db'))))
         | AtRouteInc route nm result \<Rightarrow>
             if route_inc_fails env then (c\<lparr>inv_stage := Returned result\<rparr>, db)
             else (c\<lparr>inv_stage := AtRoutePush route nm result\<rparr>,
                   updateOne (\<lambda>b. minuteBucket b = key \<and> route \<in> set (map fst (routes b)))
                     (\<lambda>b. b\<lparr>routes := inc_first route (routes b)\<rparr>) db)
         | AtRoutePush route nm result \<Rightarrow>
             if route_push_fails env then (c\<lparr>inv_stage := Returned result\<rparr>, db)
             else (c\<lparr>inv_stage := AtNameInc route nm result\<rparr>,
                   updateOne (\<lambda>b. minuteBucket b = key \<and> route \<notin> set (map fst (routes b)))
                     (\<lambda>b. b\<lparr>routes := routes b @ [(route, 1)]\<rparr>) db)
         | AtNameInc route nm result \<Rightarrow>
             if name_inc_fails env then (c\<lparr>inv_stage := Returned result\<rparr>, db)
             else (c\<lparr>inv_stage := AtNamePush route nm result\<rparr>,
                   updateOne (\<lambda>b. minuteBucket b = key \<and> nm \<in> set (map fst (nameFrequency b)))
                     (\<lambda>b. b\<lparr>nameFrequency := inc_first nm (nameFrequency b)\<rparr>) db)
         | AtNamePush route nm result \<Rightarrow>
             if name_push_fails env then (c\<lparr>inv_stage := Returned result\<rparr>, db)
             else (c\<lparr>inv_stage := Returned result\<rparr>,
                   updateOne (\<lambda>b. minuteBucket b = key \<and> nm \<notin> set (map fst (nameFrequency b)))
                     (\<lambda>b. b\<lparr>nameFrequency := nameFrequency b @ [(nm, 1)]\<rparr>) db)
         | Returned result \<Rightarrow> (c, db)
         | Thrown e \<Rightarrow> (c, db))"

text \<open>
  A schedule names, step by step, the call whose next operation the database performs.
  \<open>run\<close> gives the calls and the collection after the schedule.
\<close>

fun run :: "runtime \<Rightarrow> nat list \<Rightarrow> invocation list \<Rightarrow> collection \<Rightarrow> invocation list \<times> collection" where
  "run rt [] cs db = (cs, db)"
| "run rt (i # sched) cs db =
     (if i < length cs
      then (case advance rt (cs ! i) db of (c', db') \<Rightarrow> run rt sched (cs[i := c']) db')
      else run rt sched cs db)"

definition finished :: "invocation \<Rightarrow> bool" where
  "finished c = (case inv_stage c of Returned result \<Rightarrow> True | Thrown e \<Rightarrow> True | _ \<Rightarrow> False)"

definition succeeded :: "invocation \<Rightarrow> bool" where
  "succeeded c = (case inv_stage c of Returned result \<Rightarrow> True | _ \<Rightarrow> False)"

text \<open>What the caller of a finished call gets: the resolved value or the thrown error.\<close>

definition outcome :: "invocation \<Rightarrow> (js_error + bucket option) option" where
  "outcome c =
     (case inv_stage c of
        Returned result \<Rightarrow> Some (Inr result)
      | Thrown e \<Rightarrow> Some (Inl e)
      | _ \<Rightarrow> None)"

text \<open>The minute a call writes to.\<close>

definition bucket_key :: "runtime \<Rightarrow> invocation \<Rightarrow> jsstring" where
  "bucket_key rt c = minuteBucket (createMinuteBucket rt (now (inv_env c)))"

text \<open>
  The race of the two-step counter update. A call is about to add a new entry when its
  increment has run, its push has not, and the filter of the push matches a document: the
  result is the bucket key and the entry's key. Two calls clash when they are about to add
  an entry for the same key to the same counter of the same bucket; whichever pushes
  first, the filter of the other no longer matches and its record is never counted.
\<close>

definition pending_route :: "runtime \<Rightarrow> collection \<Rightarrow> invocation \<Rightarrow> (jsstring \<times> jsstring) option" where
  "pending_route rt db c =
     (case inv_stage c of
        AtRoutePush route nm result \<Rightarrow>
          (case find (\<lambda>b. minuteBucket b = bucket_key rt c \<and> route \<notin> set (map fst (routes b))) db of
             None \<Rightarrow> None
           | Some b \<Rightarrow> Some (bucket_key rt c, route))
      | _ \<Rightarrow> None)"

definition pending_name :: "runtime \<Rightarrow> collection \<Rightarrow> invocation \<Rightarrow> (jsstring \<times> jsstring) option" where
  "pending_name rt db c =
     (case inv_stage c of
        AtNamePush route nm result \<Rightarrow>
          (case find (\<lambda>b. minuteBucket b = bucket_key rt c \<and> nm \<notin> set (map fst (nameFrequency b))) db of
             None \<Rightarrow> None
           | Some b \<Rightarrow> Some (bucket_key rt c, nm))
      | _ \<Rightarrow> None)"

definition clash :: "runtime \<Rightarrow> collection \<Rightarrow> invocation \<Rightarrow> invocation \<Rightarrow> bool" where
  "clash rt db c c' \<longleftrightarrow>
     (pending_route rt db c \<noteq> None \<and> pending_route rt db c = pending_route rt db c')
     \<or> (pending_name rt db c \<noteq> None \<and> pending_name rt db c = pending_name rt db c')"

definition clash_free :: "runtime \<Rightarrow> invocation list \<Rightarrow> collection \<Rightarrow> bool" where
  "clash_free rt cs db =
     list_all (\<lambda>j. list_all (\<lambda>k. j = k \<or> \<not> clash rt db (cs ! j) (cs ! k)) [0..<length cs])
       [0..<length cs]"

text \<open>No two calls clash in any state the schedule passes through.\<close>

fun race_free :: "runtime \<Rightarrow> nat list \<Rightarrow> invocation list \<Rightarrow> collection \<Rightarrow> bool" where
  "race_free rt [] cs db = clash_free rt cs db"
| "race_free rt (i # sched) cs db =
     (clash_free rt cs db
      \<and> (if i < length cs
         then (case advance rt (cs ! i) db of (c', db') \<Rightarrow> race_free rt sched (cs[i := c']) db')
         else race_free rt sched cs db))"

text \<open>
  Bookkeeping for the invariants. A call has its record in the bucket once its write is
  done. It has been counted in \<^verbatim>\<open>routes\<close> once its push is done, and already after its
  increment if the route has an entry; likewise in \<^verbatim>\<open>nameFrequency\<close>.
\<close>

definition wrote :: "invocation \<Rightarrow> bool" where
  "wrote c =
     (case inv_stage c of
        AtFindOne \<Rightarrow> False | AtWrite route found \<Rightarrow> False | Thrown e \<Rightarrow> False | _ \<Rightarrow> True)"

definition saw_bucket :: "invocation \<Rightarrow> bool" where
  "saw_bucket c = (case inv_stage c of AtWrite route (Some existing) \<Rightarrow> True | _ \<Rightarrow> False)"

definition route_counted :: "bucket \<Rightarrow> invocation \<Rightarrow> bool" where
  "route_counted b c =
     (case inv_stage c of
        AtRoutePush route nm result \<Rightarrow> route \<in> set (map fst (routes b))
      | AtNameInc route nm result \<Rightarrow> True
      | AtNamePush route nm result \<Rightarrow> True
      | Returned result \<Rightarrow> True
      | _ \<Rightarrow> False)"

definition name_counted :: "bucket \<Rightarrow> invocation \<Rightarrow> bool" where
  "name_counted b c =
     (case inv_stage c of
        AtNamePush route nm result \<Rightarrow> nm \<in> set (map fst (nameFrequency b))
      | Returned result \<Rightarrow> True
      | _ \<Rightarrow> False)"

text \<open>
  The invariants of the minute \<open>key\<close>: there is no bucket and no call has written or seen
  one, or there is one bucket that holds a record for each call that has written; and the
  counts of each counter sum to the number of calls counted in it.
\<close>

definition records_inv :: "jsstring \<Rightarrow> invocation list \<Rightarrow> collection \<Rightarrow> bool" where
  "records_inv key cs db =
     (case filter (\<lambda>b. minuteBucket b = key) db of
        [] \<Rightarrow> list_all (\<lambda>c. \<not> wrote c \<and> \<not> saw_bucket c) cs
      | [b] \<Rightarrow> recordCount b = length (filter wrote cs)
               \<and> length (records b) = length (filter wrote cs)
      | _ \<Rightarrow> False)"

definition counters_inv :: "jsstring \<Rightarrow> invocation list \<Rightarrow> collection \<Rightarrow> bool" where
  "counters_inv key cs db =
     (case filter (\<lambda>b. minuteBucket b = key) db of
        [b] \<Rightarrow> sum_list (map snd (routes b)) = length (filter (route_counted b) cs)
               \<and> sum_list (map snd (nameFrequency b)) = length (filter (name_counted b) cs)
      | _ \<Rightarrow> True)"

section \<open>services/listener/listener.js: the ingestion pipeline\<close>

text \<open>The counters \<^verbatim>\<open>this.processingStats\<close>.\<close>

record processingStats =
  totalReceived :: nat
  totalProcessed :: nat
  totalValid :: nat
  totalInvalid :: nat
  totalSaved :: nat
  errorsTotal :: nat    \<comment> \<open>the field \<^verbatim>\<open>errors\<close>\<close>

text \<open>
  The state a batch handler reads and writes: the counters, the \<^verbatim>\<open>messagesReceived\<close>
  count of the entry \<^verbatim>\<open>connectedEmitters\<close> holds for this socket (if it holds one), and the
  collection.
\<close>

record listener =
  stats :: processingStats
  emitterInfo :: "nat option"
  collection :: collection

text \<open>The object \<^verbatim>\<open>processEncryptedMessage\<close> returns; \<open>reason\<close> is its text or error.\<close>

datatype reason = InvalidSecretKey | ErrorMessage js_error

record item_result =
  valid :: bool
  saved :: bool
  reason :: "reason option"
  data :: "props option"
  savedBucket :: "jsstring option"    \<comment> \<open>the field \<^verbatim>\<open>minuteBucket\<close>\<close>

text \<open>The object \<^verbatim>\<open>results\<close> of a batch, sent as the acknowledgment.\<close>

record results =
  messageCount :: nat
  processedCount :: nat
  validCount :: nat
  invalidCount :: nat
  savedCount :: nat
  errors :: "(nat \<times> js_error) list"

datatype event = message_received results | processing_error js_error

text \<open>
  The \<^verbatim>\<open>try\<close> block of \<^verbatim>\<open>processEncryptedMessage\<close>. Reading \<^verbatim>\<open>savedRecord.minuteBucket\<close>
  throws a TypeError when the write returned \<^verbatim>\<open>null\<close>.
\<close>

definition process_body ::
  "runtime \<Rightarrow> call_env \<Rightarrow> jsstring \<Rightarrow> collection \<Rightarrow> (js_error + item_result) \<times> collection" where
  "process_body rt env encryptedMessage db =
     (case decrypt (rt_keystream rt) encryptedMessage of
        Inl e \<Rightarrow> (Inl e, db)
      | Inr decryptedString \<Rightarrow>
     (case rt_JSON_parse rt decryptedString of
        Inl e \<Rightarrow> (Inl e, db)
      | Inr messageWithKey \<Rightarrow>
          if \<not> validateSecretKey (rt_sha256 rt) messageWithKey
          then (Inr \<lparr> valid = False, saved = False, reason = Some InvalidSecretKey,
                      data = None, savedBucket = None \<rparr>, db)
          else (case own_props messageWithKey of
                  Inl e \<Rightarrow> (Inl e, db)
                | Inr ps \<Rightarrow>
                    (let originalMessage = rest_without (ascii ''secret_key'') ps in
                     case addRecord rt env originalMessage db of
                       (Inl e, db') \<Rightarrow> (Inl e, db')
                     | (Inr None, db') \<Rightarrow> (Inl TypeError, db')
                     | (Inr (Some savedRecord), db') \<Rightarrow>
                         (Inr \<lparr> valid = True, saved = True, reason = None,
                                data = Some originalMessage,
                                savedBucket = Some (minuteBucket savedRecord) \<rparr>, db')))))"

text \<open>
  \<^verbatim>\<open>processEncryptedMessage\<close>: the \<^verbatim>\<open>catch\<close> turns any exception of the block into a result.
  The outcome keeps the type of a call that may throw, which is what its caller handles.
\<close>

definition processEncryptedMessage ::
  "runtime \<Rightarrow> call_env \<Rightarrow> jsstring \<Rightarrow> nat \<Rightarrow> collection \<Rightarrow> (js_error + item_result) \<times> collection" where
  "processEncryptedMessage rt env encryptedMessage index db =
     (case process_body rt env encryptedMessage db of
        (Inl error, db') \<Rightarrow>
          (Inr \<lparr> valid = False, saved = False, reason = Some (ErrorMessage error),
                 data = None, savedBucket = None \<rparr>, db')
      | (Inr result, db') \<Rightarrow> (Inr result, db'))"

text \<open>
  The \<^verbatim>\<open>for\<close> loop of \<^verbatim>\<open>handleMessageStream\<close>, from index \<open>i\<close> on. \<open>envs i\<close> is what the
  call for item \<open>i\<close> reads from its environment.
\<close>

fun process_loop ::
  "runtime \<Rightarrow> (nat \<Rightarrow> call_env) \<Rightarrow> jsstring list \<Rightarrow> nat \<Rightarrow> results \<Rightarrow> collection \<Rightarrow> results \<times> collection" where
  "process_loop rt envs [] i res db = (res, db)"
| "process_loop rt envs (encryptedMessage # rest) i res db =
     (case processEncryptedMessage rt (envs i) encryptedMessage i db of
        (Inr result, db') \<Rightarrow>
          (let res1 = res\<lparr>processedCount := processedCount res + 1\<rparr>;
               res2 = (if valid result
                       then (let res' = res1\<lparr>validCount := validCount res1 + 1\<rparr>
                             in if saved result then res'\<lparr>savedCount := savedCount res' + 1\<rparr>
                                else res')
                       else res1\<lparr>invalidCount := invalidCount res1 + 1\<rparr>)
           in process_loop rt envs rest (i + 1) res2 db')
      | (Inl error, db') \<Rightarrow>
          process_loop rt envs rest (i + 1) (res\<lparr>errors := errors res @ [(i, error)]\<rparr>) db')"

text \<open>
  A property read \<^verbatim>\<open>data.key\<close> for a key no prototype defines: a TypeError on \<^verbatim>\<open>null\<close>
  and \<^verbatim>\<open>undefined\<close>, the own property of an object, \<^verbatim>\<open>undefined\<close> otherwise.
\<close>

fun get_prop :: "jsvalue \<Rightarrow> jsstring \<Rightarrow> js_error + jsvalue" where
  "get_prop JUndefined key = Inl TypeError"
| "get_prop JNull key = Inl TypeError"
| "get_prop (JObj ps) key = Inr (lookup ps key)"
| "get_prop v key = Inr JUndefined"

text \<open>
  \<^verbatim>\<open>handleMessageStream\<close>: the event emitted on the socket and the new state. The first
  statement logs \<^verbatim>\<open>data.messageCount\<close> in a template literal. The outer \<^verbatim>\<open>catch\<close> emits
  \<^verbatim>\<open>processing_error\<close>; what was written before the exception stays.
\<close>

definition handleMessageStream ::
  "runtime \<Rightarrow> (nat \<Rightarrow> call_env) \<Rightarrow> jsvalue \<Rightarrow> listener \<Rightarrow> event \<times> listener" where
  "handleMessageStream rt envs dat st =
     (case get_prop dat (ascii ''messageCount'') of
        Inl error \<Rightarrow> (processing_error error, st)
      | Inr announced \<Rightarrow>
     (case toStr announced of
        Inl error \<Rightarrow> (processing_error error, st)
      | Inr logged \<Rightarrow>
     (let st1 = st\<lparr>emitterInfo := map_option (\<lambda>n. n + 1) (emitterInfo st)\<rparr> in
      case get_prop dat (ascii ''stream'') of
        Inl error \<Rightarrow> (processing_error error, st1)
      | Inr stream \<Rightarrow>
     (case parseMessageStream stream of
        Inl error \<Rightarrow> (processing_error error, st1)
      | Inr encryptedMessages \<Rightarrow>
          (let s0 = stats st1;
               s1 = s0\<lparr>totalReceived := totalReceived s0 + length encryptedMessages\<rparr>;
               res0 = \<lparr> messageCount = length encryptedMessages, processedCount = 0,
                        validCount = 0, invalidCount = 0, savedCount = 0, errors = [] \<rparr>
           in case process_loop rt envs encryptedMessages 0 res0 (collection st1) of
                (res, db') \<Rightarrow>
                  (let s2 = s1\<lparr>totalProcessed := totalProcessed s1 + processedCount res,
                                totalValid := totalValid s1 + validCount res,
                                totalInvalid := totalInvalid s1 + invalidCount res,
                                totalSaved := totalSaved s1 + savedCount res,
                                errorsTotal := errorsTotal s1 + length (errors res)\<rparr>
                   in (message_received res, st1\<lparr>stats := s2, collection := db'\<rparr>)))))))"


text \<open>
  What \<^verbatim>\<open>handleMessageStream\<close> decodes from the event before its loop starts: the batch of
  envelopes, or the exception thrown on the way.
\<close>

definition batch_of :: "jsvalue \<Rightarrow> js_error + jsstring list" where
  "batch_of dat =
     (case get_prop dat (ascii ''messageCount'') of
        Inl error \<Rightarrow> Inl error
      | Inr announced \<Rightarrow>
     (case toStr announced of
        Inl error \<Rightarrow> Inl error
      | Inr logged \<Rightarrow>
     (case get_prop dat (ascii ''stream'') of
        Inl error \<Rightarrow> Inl error
      | Inr stream \<Rightarrow> parseMessageStream stream)))"

text \<open>
  The three ways an item is malformed: it does not decrypt, its text does not parse, or
  its tag does not validate.
\<close>

definition malformed :: "runtime \<Rightarrow> jsstring \<Rightarrow> bool" where
  "malformed rt encryptedMessage =
     (case decrypt (rt_keystream rt) encryptedMessage of
        Inl e \<Rightarrow> True
      | Inr decryptedString \<Rightarrow>
          (case rt_JSON_parse rt decryptedString of
             Inl e \<Rightarrow> True
           | Inr messageWithKey \<Rightarrow> \<not> validateSecretKey (rt_sha256 rt) messageWithKey))"

text \<open>The message fields a well-formed item carries: the parsed object without its tag.\<close>

definition payload :: "runtime \<Rightarrow> jsstring \<Rightarrow> props" where
  "payload rt encryptedMessage =
     (case decrypt (rt_keystream rt) encryptedMessage of
        Inl e \<Rightarrow> []
      | Inr decryptedString \<Rightarrow>
          (case rt_JSON_parse rt decryptedString of
             Inl e \<Rightarrow> []
           | Inr messageWithKey \<Rightarrow>
               (case own_props messageWithKey of
                  Inl e \<Rightarrow> []
                | Inr ps \<Rightarrow> rest_without (ascii ''secret_key'') ps)))"

text \<open>
  The persistence write of a message succeeds: the route string can be built, the
  database rejects neither the lookup nor the write, and Mongoose accepts the fields.
\<close>

definition persists :: "runtime \<Rightarrow> call_env \<Rightarrow> props \<Rightarrow> bool" where
  "persists rt env messageData \<longleftrightarrow>
     (\<exists>orig. toStr (lookup messageData (ascii ''origin'')) = Inr orig)
     \<and> (\<exists>dest. toStr (lookup messageData (ascii ''destination'')) = Inr dest)
     \<and> \<not> findOne_fails env \<and> \<not> write_fails env
     \<and> cast_record rt messageData (now env)
           (decimal (now env) @ ascii ''-'' @ random_suffix env) \<noteq> None"

section \<open>services/emitter: the producer\<close>

text \<open>
  The event \<^verbatim>\<open>sendMessageStream\<close> emits for a batch: the stream, the time of sending as an
  ISO string, and the number of parts the stream splits into.
\<close>

definition batch_event :: "jsstring list \<Rightarrow> jsstring \<Rightarrow> jsvalue" where
  "batch_event encryptedMessages isoNow =
     (let messageStream = createMessageStream encryptedMessages;
          messageCount = length (split (chr CHR ''|'') messageStream)
      in JObj [(ascii ''stream'', JStr messageStream),
               (ascii ''timestamp'', JStr isoNow),
               (ascii ''messageCount'', JNum (decimal messageCount))])"

text \<open>
  The fields of \<^verbatim>\<open>EmitterService\<close> the connection logic reads and writes, with what the
  event loop holds for it: \<open>hasSocket\<close> says that \<^verbatim>\<open>this.socket\<close> is not null,
  \<open>intervalActive\<close> that \<^verbatim>\<open>this.intervalId\<close> is a running \<^verbatim>\<open>setInterval\<close> timer,
  \<open>pendingReconnects\<close> counts the \<^verbatim>\<open>setTimeout\<close> callbacks of \<^verbatim>\<open>scheduleReconnect\<close> that
  have not fired yet, and \<open>batchesSent\<close> the events emitted.
\<close>

record emitter =
  hasSocket :: bool
  intervalActive :: bool
  isConnected :: bool
  reconnectAttempts :: nat
  maxReconnectAttempts :: nat
  pendingReconnects :: nat
  batchesSent :: nat

text \<open>The constructor.\<close>

definition new_emitter :: emitter where
  "new_emitter =
     \<lparr> hasSocket = False, intervalActive = False, isConnected = False,
       reconnectAttempts = 0, maxReconnectAttempts = 10,
       pendingReconnects = 0, batchesSent = 0 \<rparr>"

definition stopPeriodicMessaging :: "emitter \<Rightarrow> emitter" where
  "stopPeriodicMessaging e = (if intervalActive e then e\<lparr>intervalActive := False\<rparr> else e)"

text \<open>
  \<^verbatim>\<open>stop\<close>. Disconnecting the socket can only fire its \<^verbatim>\<open>disconnect\<close> handler with the
  reason \<^verbatim>\<open>'io client disconnect'\<close>, which changes nothing that \<^verbatim>\<open>stop\<close> does not set itself.
\<close>

definition stop :: "emitter \<Rightarrow> emitter" where
  "stop e =
     (let e1 = stopPeriodicMessaging e;
          e2 = (if hasSocket e1 then e1\<lparr>hasSocket := False\<rparr> else e1)
      in e2\<lparr>isConnected := False\<rparr>)"

definition scheduleReconnect :: "emitter \<Rightarrow> emitter" where
  "scheduleReconnect e =
     (if reconnectAttempts e \<ge> maxReconnectAttempts e then stop e
      else e\<lparr>reconnectAttempts := reconnectAttempts e + 1,
             pendingReconnects := pendingReconnects e + 1\<rparr>)"

text \<open>\<^verbatim>\<open>connect\<close>; \<open>throws\<close> says whether creating the socket throws.\<close>

definition connect :: "bool \<Rightarrow> emitter \<Rightarrow> emitter" where
  "connect throws e = (if throws then scheduleReconnect e else e\<lparr>hasSocket := True\<rparr>)"

definition start :: "bool \<Rightarrow> emitter \<Rightarrow> emitter" where
  "start throws e = connect throws e"

definition sendMessageStream :: "emitter \<Rightarrow> emitter" where
  "sendMessageStream e =
     (if \<not> isConnected e \<or> \<not> hasSocket e then e else e\<lparr>batchesSent := batchesSent e + 1\<rparr>)"

definition startPeriodicMessaging :: "emitter \<Rightarrow> emitter" where
  "startPeriodicMessaging e = (sendMessageStream e)\<lparr>intervalActive := True\<rparr>"

text \<open>The socket event handlers, and the two timer callbacks.\<close>

definition on_connect :: "emitter \<Rightarrow> emitter" where
  "on_connect e = startPeriodicMessaging (e\<lparr>isConnected := True, reconnectAttempts := 0\<rparr>)"

definition on_connect_error :: "emitter \<Rightarrow> emitter" where
  "on_connect_error e = scheduleReconnect (e\<lparr>isConnected := False\<rparr>)"

datatype disconnect_reason = io_client_disconnect | other_reason

definition on_disconnect :: "disconnect_reason \<Rightarrow> emitter \<Rightarrow> emitter" where
  "on_disconnect why e =
     (let e1 = stopPeriodicMessaging (e\<lparr>isConnected := False\<rparr>)
      in if why \<noteq> io_client_disconnect then scheduleReconnect e1 else e1)"

definition reconnect_timer_fires :: "bool \<Rightarrow> emitter \<Rightarrow> emitter" where
  "reconnect_timer_fires throws e =
     (if pendingReconnects e = 0 then e
      else connect throws (e\<lparr>pendingReconnects := pendingReconnects e - 1\<rparr>))"

definition interval_fires :: "emitter \<Rightarrow> emitter" where
  "interval_fires e = (if intervalActive e then sendMessageStream e else e)"

text \<open>
  A failed connection attempt: creating the socket throws, or the socket is created and
  then reports \<^verbatim>\<open>connect_error\<close>. The first attempt is made by \<^verbatim>\<open>start\<close>, every later one by
  a reconnect timer. \<open>failed_attempts fs e\<close> is the state after \<open>length fs\<close> consecutive
  failed attempts made by reconnect timers, \<open>failed_from_start fs e\<close> after as many
  counted from \<^verbatim>\<open>start\<close>.
\<close>

definition failed_start :: "bool \<Rightarrow> emitter \<Rightarrow> emitter" where
  "failed_start throws e = (if throws then start True e else on_connect_error (start False e))"

definition failed_retry :: "bool \<Rightarrow> emitter \<Rightarrow> emitter" where
  "failed_retry throws e =
     (if pendingReconnects e = 0 then e
      else if throws then reconnect_timer_fires True e
      else on_connect_error (reconnect_timer_fires False e))"

fun failed_attempts :: "bool list \<Rightarrow> emitter \<Rightarrow> emitter" where
  "failed_attempts [] e = e"
| "failed_attempts (f # fs) e = failed_attempts fs (failed_retry f e)"

fun failed_from_start :: "bool list \<Rightarrow> emitter \<Rightarrow> emitter" where
  "failed_from_start [] e = e"
| "failed_from_start (f # fs) e = failed_attempts fs (failed_start f e)"

text \<open>
  The terminal state: no socket, no periodic timer, no reconnect timer pending. No
  handler and no timer callback can run any more.
\<close>

definition stopped :: "emitter \<Rightarrow> bool" where
  "stopped e \<longleftrightarrow>
     \<not> hasSocket e \<and> \<not> intervalActive e \<and> \<not> isConnected e \<and> pendingReconnects e = 0"

text \<open>Between attempts: a reconnect timer is pending and nothing is being sent.\<close>

definition waiting :: "nat \<Rightarrow> emitter \<Rightarrow> bool" where
  "waiting a e \<longleftrightarrow>
     reconnectAttempts e = a \<and> pendingReconnects e = 1
     \<and> \<not> intervalActive e \<and> \<not> isConnected e"

section \<open>Example inputs\<close>

text \<open>
  A runtime for worked examples. The digest and the key stream are left open. Its
  \<^verbatim>\<open>JSON.parse\<close> knows a single text, which it reads as the tagged message
  \<^verbatim>\<open>{ name: 'Asha', origin: 'Mumbai', destination: 'Delhi', secret_key }\<close>; its Mongoose cast
  accepts non-empty strings, which it stores unchanged; every time is rendered as
  2023-11-14T22:13:00.000Z, and local time is five and a half hours ahead of UTC.
\<close>

definition example_message :: "(jsstring \<Rightarrow> jsstring) \<Rightarrow> props" where
  "example_message sha256 =
     [(ascii ''name'', JStr (ascii ''Asha'')),
      (ascii ''origin'', JStr (ascii ''Mumbai'')),
      (ascii ''destination'', JStr (ascii ''Delhi'')),
      (ascii ''secret_key'',
         JStr (sha256 (ascii ''destination:Delhi|name:Asha|origin:Mumbai'')))]"

definition example_text :: jsstring where
  "example_text = ascii ''Asha, Mumbai, Delhi''"

definition example_castString :: "jsvalue \<Rightarrow> jsstring option" where
  "example_castString v = (case v of JStr s \<Rightarrow> (if s = [] then None else Some s) | _ \<Rightarrow> None)"

definition example_runtime ::
  "(jsstring \<Rightarrow> jsstring) \<Rightarrow> (byte list \<Rightarrow> nat \<Rightarrow> byte) \<Rightarrow> runtime" where
  "example_runtime sha256 keystream =
     \<lparr> rt_sha256 = sha256,
       rt_keystream = keystream,
       rt_JSON_parse = (\<lambda>text. if text = example_text then Inr (JObj (example_message sha256))
                               else Inl JSONSyntaxError),
       rt_toISOString = (\<lambda>t. ascii ''2023-11-14T22:13:00.000Z''),
       rt_localOffset = (\<lambda>t. 19800000),
       rt_castString = example_castString \<rparr>"

text \<open>The envelope of the example text under the all-zero initialization vector.\<close>

definition example_envelope :: "(byte list \<Rightarrow> nat \<Rightarrow> byte) \<Rightarrow> jsstring" where
  "example_envelope keystream =
     hex_encode (replicate 16 0) @ ascii '':''
     @ hex_encode (ctr keystream (replicate 16 0) (utf8_encode example_text))"

text \<open>A call environment in which no database operation fails, and an idle listener.\<close>

definition example_env :: call_env where
  "example_env =
     \<lparr> now = 1700000000000, random_suffix = ascii ''k3j9x0q1z'',
       findOne_fails = False, write_fails = False,
       route_inc_fails = False, route_push_fails = False,
       name_inc_fails = False, name_push_fails = False \<rparr>"

definition example_listener :: listener where
  "example_listener =
     \<lparr> stats = \<lparr> totalReceived = 0, totalProcessed = 0, totalValid = 0,
                 totalInvalid = 0, totalSaved = 0, errorsTotal = 0 \<rparr>,
       emitterInfo = Some 0,
       collection = [] \<rparr>"

text \<open>The fields of the example message, and the bucket its first append creates.\<close>

definition example_fields :: props where
  "example_fields =
     [(ascii ''name'', JStr (ascii ''Asha'')),
      (ascii ''origin'', JStr (ascii ''Mumbai'')),
      (ascii ''destination'', JStr (ascii ''Delhi''))]"

definition example_bucket :: bucket where
  "example_bucket =
     \<lparr> minuteBucket = ascii ''2023-11-14T22:13'',
       bucket_timestamp = 1699999980000,
       dateOnly = ascii ''2023-11-14'',
       records = [\<lparr> name = ascii ''Asha'', origin = ascii ''Mumbai'',
                    destination = ascii ''Delhi'', timestamp = 1700000000000,
                    recordId = decimal 1700000000000 @ ascii ''-k3j9x0q1z'' \<rparr>],
       recordCount = 1,
       routes = [],
       nameFrequency = [],
       firstRecordTime = 1700000000000,
       lastRecordTime = 1700000000000 \<rparr>"

text \<open>Two appends of the example fields, thirty seconds apart in the same minute.\<close>

definition example_calls :: "(call_env \<times> props) list" where
  "example_calls =
     [(example_env, example_fields),
      (example_env\<lparr>now := 1700000030000, random_suffix := ascii ''p7m2c4v8b''\<rparr>, example_fields)]"

section \<open>Properties of the batch codec\<close>

lemma split_no_delim: "d \<notin> set x \<Longrightarrow> split d x = [x]"
  by (induction x) auto

lemma split_append_delim:
  "d \<notin> set x \<Longrightarrow> split d (x @ d # rest) = x # split d rest"
proof (induction x)
  case Nil
  show ?case by simp
next
  case (Cons c x)
  then have "c \<noteq> d" and "split d (x @ d # rest) = x # split d rest" by auto
  then show ?case by simp
qed

lemma split_join:
  "xs \<noteq> [] \<Longrightarrow> \<forall>x\<in>set xs. d \<notin> set x \<Longrightarrow> split d (join [d] xs) = xs"
proof (induction "[d]" xs rule: join.induct)
  case 1
  then show ?case by simp
next
  case (2 x)
  then show ?case by (simp add: split_no_delim)
next
  case (3 x y ys)
  then show ?case by (simp add: split_append_delim)
qed

lemma trim_nonempty_iff: "trim s \<noteq> [] \<longleftrightarrow> (\<exists>c\<in>set s. \<not> is_ws c)"
proof -
  have "(\<forall>x\<in>set (dropWhile is_ws s). is_ws x) \<longleftrightarrow> dropWhile is_ws s = []"
  proof
    assume all: "\<forall>x\<in>set (dropWhile is_ws s). is_ws x"
    show "dropWhile is_ws s = []"
    proof (rule ccontr)
      assume ne: "dropWhile is_ws s \<noteq> []"
      then have "\<not> is_ws (hd (dropWhile is_ws s))" by (rule hd_dropWhile)
      moreover from ne have "hd (dropWhile is_ws s) \<in> set (dropWhile is_ws s)" by simp
      ultimately show False using all by blast
    qed
  qed (auto dest: set_dropWhileD)
  then show ?thesis
    by (simp add: trim_def dropWhile_eq_Nil_conv)
qed

lemma join_nonempty: "xs \<noteq> [] \<Longrightarrow> hd xs \<noteq> [] \<Longrightarrow> join d xs \<noteq> []"
  by (induction d xs rule: join.induct) auto

text \<open>
  C5, as amended. For every non-empty batch of strings that are free of \<^verbatim>\<open>'|'\<close> and each
  hold at least one character that \<^verbatim>\<open>trim\<close> keeps, parsing the joined stream gives the
  batch back, in order. Parsing the empty string, or any value that is not a string,
  throws the format error.
\<close>

theorem parse_create_roundtrip:
  "(xs \<noteq> [] \<and> (\<forall>x\<in>set xs. chr CHR ''|'' \<notin> set x \<and> (\<exists>c\<in>set x. \<not> is_ws c))
      \<longrightarrow> parseMessageStream (JStr (createMessageStream xs)) = Inr xs)
   \<and> parseMessageStream (JStr []) = Inl InvalidMessageStreamFormat
   \<and> ((\<forall>s. v \<noteq> JStr s) \<longrightarrow> parseMessageStream v = Inl InvalidMessageStreamFormat)"
proof (intro conjI impI)
  assume h: "xs \<noteq> [] \<and> (\<forall>x\<in>set xs. chr CHR ''|'' \<notin> set x \<and> (\<exists>c\<in>set x. \<not> is_ws c))"
  have pipe: "ascii ''|'' = [chr CHR ''|'']"
    by (simp add: ascii_def)
  from h have "hd xs \<in> set xs" by simp
  with h have "hd xs \<noteq> []" by fastforce
  with h have ne: "createMessageStream xs \<noteq> []"
    by (simp add: createMessageStream_def join_nonempty)
  from h have sp: "split (chr CHR ''|'') (createMessageStream xs) = xs"
    by (simp add: createMessageStream_def pipe split_join)
  from h have "filter (\<lambda>msg. length (trim msg) > 0) xs = xs"
    by (simp add: trim_nonempty_iff filter_id_conv)
  with ne sp show "parseMessageStream (JStr (createMessageStream xs)) = Inr xs"
    by simp
next
  show "parseMessageStream (JStr []) = Inl InvalidMessageStreamFormat" by simp
next
  assume "\<forall>s. v \<noteq> JStr s"
  then show "parseMessageStream v = Inl InvalidMessageStreamFormat"
    by (cases v) auto
qed

theorem parse_create_roundtrip_witness:
  "parseMessageStream (JStr (createMessageStream [ascii ''ab:cd'', ascii ''ef:01'']))
     = Inr [ascii ''ab:cd'', ascii ''ef:01'']
   \<and> parseMessageStream (JNum (ascii ''7'')) = Inl InvalidMessageStreamFormat"
  using parse_create_roundtrip [of "[ascii ''ab:cd'', ascii ''ef:01'']" "JNum (ascii ''7'')"]
  by (simp add: ascii_def chr_def is_ws_def)

text \<open>
  C5 as stated fails twice: a batch of one blank string is a list of non-empty,
  delimiter-free strings, yet it parses to the empty list; and the empty batch joins to
  the empty string, which does not parse at all.
\<close>

theorem parse_create_roundtrip_counterexample:
  "ascii '' '' \<noteq> [] \<and> chr CHR ''|'' \<notin> set (ascii '' '')
   \<and> parseMessageStream (JStr (createMessageStream [ascii '' ''])) = Inr []
   \<and> parseMessageStream (JStr (createMessageStream [])) = Inl InvalidMessageStreamFormat"
  by (simp add: ascii_def chr_def createMessageStream_def trim_def is_ws_def)

section \<open>Properties of the canonical hash and of tag validation\<close>

lemma lookup_perm:
  assumes "distinct (map fst ps)" and "mset ps' = mset ps"
  shows "lookup ps' = lookup ps"
proof -
  from assms(2) have "mset (map fst ps') = mset (map fst ps)" by simp
  with assms(1) have "distinct (map fst ps')" by (metis mset_eq_imp_distinct_iff)
  moreover from assms(2) have "set ps' = set ps" by (rule mset_eq_setD)
  ultimately have "map_of ps' = map_of ps"
    using assms(1) by (simp add: map_of_inject_set)
  then show ?thesis by (auto simp: lookup_def fun_eq_iff)
qed

lemma sorted_keys_perm: "mset ps' = mset ps \<Longrightarrow> sort (map fst ps') = sort (map fst ps)"
proof -
  assume "mset ps' = mset ps"
  then have "mset (map fst ps') = mset (map fst ps)" by simp
  then show ?thesis by (intro properties_for_sort) simp_all
qed

lemma canonical_perm:
  assumes "distinct (map fst ps)" and "mset ps' = mset ps"
  shows "canonical ps' = canonical ps"
  unfolding canonical_def lookup_perm [OF assms] sorted_keys_perm [OF assms(2)] ..

text \<open>
  C6. The digest \<^verbatim>\<open>createHash\<close> returns (or the exception it throws) is the same for any
  two objects holding the same properties in a different insertion order, whatever the
  digest primitive: the keys are sorted before they are joined.
\<close>

theorem createHash_insertion_order:
  "distinct (map fst ps) \<Longrightarrow> mset ps' = mset ps \<Longrightarrow> createHash sha256 ps' = createHash sha256 ps"
  unfolding createHash_def by (simp only: canonical_perm [of ps ps'])

theorem createHash_insertion_order_witness:
  "\<forall>sha256.
     createHash sha256 [(ascii ''origin'', JStr (ascii ''Mumbai'')), (ascii ''name'', JStr (ascii ''Asha''))]
     = createHash sha256 [(ascii ''name'', JStr (ascii ''Asha'')), (ascii ''origin'', JStr (ascii ''Mumbai''))]
   \<and> createHash sha256 [(ascii ''name'', JStr (ascii ''Asha'')), (ascii ''origin'', JStr (ascii ''Mumbai''))]
     = Inr (sha256 (ascii ''name:Asha|origin:Mumbai''))"
proof (intro allI conjI)
  fix sha256 :: "jsstring \<Rightarrow> jsstring"
  let ?ps = "[(ascii ''name'', JStr (ascii ''Asha'')), (ascii ''origin'', JStr (ascii ''Mumbai''))]"
  let ?ps' = "[(ascii ''origin'', JStr (ascii ''Mumbai'')), (ascii ''name'', JStr (ascii ''Asha''))]"
  have d: "distinct (map fst ?ps)" by (simp add: ascii_def chr_def)
  have m: "mset ?ps' = mset ?ps" by (simp add: add.commute)
  show "createHash sha256 ?ps' = createHash sha256 ?ps"
    using createHash_insertion_order [OF d m] .
  show "createHash sha256 ?ps = Inr (sha256 (ascii ''name:Asha|origin:Mumbai''))"
    by (simp add: createHash_def canonical_def lookup_def ascii_def chr_def)
qed

lemma lookup_assign_other: "k \<noteq> key \<Longrightarrow> lookup (assign obj key v) k = lookup obj k"
proof -
  assume ne: "k \<noteq> key"
  have "map_of (map (\<lambda>p. if fst p = key then (key, v) else p) obj) k = map_of obj k"
    using ne by (induction obj) auto
  with ne show ?thesis by (auto simp: lookup_def assign_def map_add_def split: option.splits)
qed



lemma join_Cons_nonempty: "ys \<noteq> [] \<Longrightarrow> join d (p # ys) = p @ d @ join d ys"
  by (cases ys) simp_all

lemma join_middle: "\<exists>pre post. \<forall>x. join d (P1 @ x # P2) = pre @ x @ post"
proof (induction P1)
  case Nil
  show ?case
  proof (cases P2)
    case Nil
    have "\<forall>x. join d ([] @ x # []) = [] @ x @ []" by simp
    with Nil show ?thesis by blast
  next
    case (Cons q qs)
    have "\<forall>x. join d ([] @ x # q # qs) = [] @ x @ (d @ join d (q # qs))" by simp
    with Cons show ?thesis by blast
  qed
next
  case (Cons p P1)
  then obtain pre post where "\<forall>x. join d (P1 @ x # P2) = pre @ x @ post" by blast
  then have "\<forall>x. join d ((p # P1) @ x # P2) = (p @ d @ pre) @ x @ post"
    by (simp add: join_Cons_nonempty)
  then show ?case by blast
qed

lemma join_middle_inject: "join d (P1 @ x # P2) = join d (P1 @ y # P2) \<Longrightarrow> x = y"
proof -
  assume eq: "join d (P1 @ x # P2) = join d (P1 @ y # P2)"
  from join_middle [of d P1 P2] obtain pre post where
    "\<forall>z. join d (P1 @ z # P2) = pre @ z @ post" by blast
  with eq have "pre @ x @ post = pre @ y @ post" by simp
  then show "x = y" by simp
qed

lemma sequence_all_Inr:
  "sequence (map F K) = Inr parts \<Longrightarrow> k \<in> set K \<Longrightarrow> \<exists>x. F k = Inr x"
proof (induction K arbitrary: parts)
  case Nil
  then show ?case by simp
next
  case (Cons a K)
  show ?case
  proof (cases "F a")
    case (Inl e)
    with Cons.prems show ?thesis by simp
  next
    case (Inr x)
    with Cons.prems(1) obtain rest where "sequence (map F K) = Inr rest"
      by (cases "sequence (map F K)") simp_all
    with Cons.IH Cons.prems(2) Inr show ?thesis by auto
  qed
qed

lemma sequence_map_Inr:
  "\<forall>k\<in>set K. F k = Inr (g k) \<Longrightarrow> sequence (map F K) = Inr (map g K)"
  by (induction K) simp_all

lemma canonical_rendered:
  assumes "\<forall>k\<in>set (map fst m). toStr (lookup m k) = Inr (r k)"
  shows "canonical m = Inr (join (ascii ''|'') (map (\<lambda>k. k @ ascii '':'' @ r k) (sort (map fst m))))"
proof -
  let ?F = "\<lambda>key. case toStr (lookup m key) of Inl e \<Rightarrow> Inl e | Inr v \<Rightarrow> Inr (key @ ascii '':'' @ v)"
  from assms have "\<forall>k\<in>set (sort (map fst m)). ?F k = Inr (k @ ascii '':'' @ r k)" by simp
  from sequence_map_Inr [OF this] show ?thesis
    by (simp add: canonical_def)
qed

lemma canonical_renders:
  assumes "canonical m = Inr c" and "k \<in> set (map fst m)"
  shows "\<exists>s. toStr (lookup m k) = Inr s"
proof -
  let ?F = "\<lambda>key. case toStr (lookup m key) of Inl e \<Rightarrow> Inl e | Inr v \<Rightarrow> Inr (key @ ascii '':'' @ v)"
  from assms(1) obtain parts where "sequence (map ?F (sort (map fst m))) = Inr parts"
    by (cases "sequence (map ?F (sort (map fst m)))") (simp_all add: canonical_def)
  moreover from assms(2) have "k \<in> set (sort (map fst m))" by simp
  ultimately have "\<exists>x. ?F k = Inr x" by (rule sequence_all_Inr)
  then show ?thesis by (cases "toStr (lookup m k)") simp_all
qed

lemma canonical_cong:
  assumes "map fst m' = map fst m"
    and "\<forall>k\<in>set (map fst m). toStr (lookup m' k) = toStr (lookup m k)"
  shows "canonical m' = canonical m"
proof -
  have "map (\<lambda>key. case toStr (lookup m' key) of Inl e \<Rightarrow> Inl e | Inr v \<Rightarrow> Inr (key @ ascii '':'' @ v))
          (sort (map fst m))
      = map (\<lambda>key. case toStr (lookup m key) of Inl e \<Rightarrow> Inl e | Inr v \<Rightarrow> Inr (key @ ascii '':'' @ v))
          (sort (map fst m))"
    using assms(2) by (intro map_cong) auto
  then show ?thesis by (simp only: canonical_def Let_def assms(1))
qed

lemma keys_assign: "key \<in> set (map fst m) \<Longrightarrow> map fst (assign m key v) = map fst m"
  by (auto simp: assign_def)

lemma lookup_assign_same: "key \<in> set (map fst m) \<Longrightarrow> lookup (assign m key v) key = v"
proof -
  assume "key \<in> set (map fst m)"
  then have "map_of (map (\<lambda>p. if fst p = key then (key, v) else p) m) key = Some v"
    by (induction m) auto
  moreover assume "key \<in> set (map fst m)"
  ultimately show ?thesis by (simp add: lookup_def assign_def)
qed


lemma canonical_assign_changes:
  assumes "distinct (map fst m)" and "key \<in> set (map fst m)"
    and "canonical m = Inr c"
    and "toStr (lookup m key) = Inr s" and "toStr v = Inr s'" and "s' \<noteq> s"
  shows "\<exists>c'. canonical (assign m key v) = Inr c' \<and> c' \<noteq> c"
proof -
  define r where "r k = projr (toStr (lookup m k))" for k
  have r: "\<forall>k\<in>set (map fst m). toStr (lookup m k) = Inr (r k)"
  proof
    fix k assume "k \<in> set (map fst m)"
    from canonical_renders [OF assms(3) this] show "toStr (lookup m k) = Inr (r k)"
      by (auto simp: r_def)
  qed
  let ?K = "sort (map fst m)"
  let ?g = "\<lambda>k. k @ ascii '':'' @ r k"
  let ?g' = "\<lambda>k. k @ ascii '':'' @ (if k = key then s' else r k)"
  from canonical_rendered [OF r] assms(3)
  have c: "c = join (ascii ''|'') (map ?g ?K)" by simp
  have "\<forall>k\<in>set (map fst (assign m key v)).
          toStr (lookup (assign m key v) k) = Inr (if k = key then s' else r k)"
  proof
    fix k assume "k \<in> set (map fst (assign m key v))"
    then have k: "k \<in> set (map fst m)" by (simp only: keys_assign [OF assms(2)])
    show "toStr (lookup (assign m key v) k) = Inr (if k = key then s' else r k)"
    proof (cases "k = key")
      case True
      with assms(2,5) show ?thesis by (simp add: lookup_assign_same)
    next
      case False
      with r [rule_format, OF k] show ?thesis by (simp add: lookup_assign_other)
    qed
  qed
  from canonical_rendered [OF this]
  have c': "canonical (assign m key v) = Inr (join (ascii ''|'') (map ?g' ?K))"
    by (simp add: keys_assign [OF assms(2)])
  from assms(2) have "key \<in> set ?K" by simp
  then obtain K1 K2 where K: "?K = K1 @ key # K2"
    by (meson split_list)
  from assms(1) have "distinct ?K" by simp
  with K have notin: "key \<notin> set K1" "key \<notin> set K2" by auto
  then have same: "map ?g' K1 = map ?g K1" "map ?g' K2 = map ?g K2"
    by (auto intro!: map_cong)
  from assms(4) r assms(2) have rk: "r key = s" by auto
  have "join (ascii ''|'') (map ?g' ?K) \<noteq> join (ascii ''|'') (map ?g ?K)"
  proof
    assume "join (ascii ''|'') (map ?g' ?K) = join (ascii ''|'') (map ?g ?K)"
    then have "join (ascii ''|'') (map ?g' K1 @ ?g' key # map ?g' K2)
             = join (ascii ''|'') (map ?g K1 @ ?g key # map ?g K2)"
      unfolding K by (simp only: map_append list.map)
    then have "join (ascii ''|'') (map ?g K1 @ ?g' key # map ?g K2)
             = join (ascii ''|'') (map ?g K1 @ ?g key # map ?g K2)"
      by (simp only: same)
    then have "?g' key = ?g key" by (rule join_middle_inject)
    with rk assms(6) show False by simp
  qed
  with c c' show ?thesis by simp
qed

lemma canonical_assign_same:
  assumes "key \<in> set (map fst m)" and "toStr v = toStr (lookup m key)"
  shows "canonical (assign m key v) = canonical m"
proof (rule canonical_cong)
  show "map fst (assign m key v) = map fst m" by (rule keys_assign [OF assms(1)])
  show "\<forall>k\<in>set (map fst m). toStr (lookup (assign m key v) k) = toStr (lookup m k)"
  proof
    fix k assume "k \<in> set (map fst m)"
    show "toStr (lookup (assign m key v) k) = toStr (lookup m k)"
    proof (cases "k = key")
      case True
      with assms show ?thesis by (simp add: lookup_assign_same)
    next
      case False
      then show ?thesis by (simp add: lookup_assign_other)
    qed
  qed
qed

lemma rest_assign:
  assumes "key \<noteq> sk" and "key \<in> set (map fst m)"
  shows "rest_without sk (assign m key v) = assign (rest_without sk m) key v"
proof -
  let ?f = "\<lambda>p. if fst p = key then (key, v) else p"
  have "filter (\<lambda>p. fst p \<noteq> sk) (map ?f m) = map ?f (filter (\<lambda>p. fst p \<noteq> sk) m)"
    using assms(1) by (induction m) auto
  moreover from assms have "key \<in> set (map fst (filter (\<lambda>p. fst p \<noteq> sk) m))"
    by auto
  ultimately show ?thesis
    using assms(2) by (simp add: rest_without_def assign_def)
qed

lemma lookup_rest_other: "k \<noteq> sk \<Longrightarrow> lookup (rest_without sk m) k = lookup m k"
proof -
  assume "k \<noteq> sk"
  then have "map_of (filter (\<lambda>p. fst p \<noteq> sk) m) k = map_of m k"
    by (induction m) auto
  then show ?thesis by (simp add: lookup_def rest_without_def)
qed

lemma keys_rest: "set (map fst (rest_without sk m)) = set (map fst m) - {sk}"
  by (auto simp: rest_without_def)

lemma distinct_rest: "distinct (map fst m) \<Longrightarrow> distinct (map fst (rest_without sk m))"
  by (simp add: rest_without_def distinct_map_filter)



lemma validateSecretKey_obj:
  "validateSecretKey sha256 (JObj m) \<longleftrightarrow>
      (\<exists>h. createHash sha256 (rest_without (ascii ''secret_key'') m) = Inr h
           \<and> lookup m (ascii ''secret_key'') = JStr h)"
  by (auto simp: validateSecretKey_def Let_def split: sum.splits)

lemma createHash_Inr:
  "createHash sha256 m = Inr h \<longleftrightarrow> (\<exists>c. canonical m = Inr c \<and> h = sha256 c)"
  by (auto simp: createHash_def split: sum.splits)

text \<open>
  C3, as amended. For every message object, \<^verbatim>\<open>validateSecretKey\<close> is true exactly when the
  hash of the message without its \<^verbatim>\<open>secret_key\<close> can be computed and \<^verbatim>\<open>secret_key\<close> is that
  hex string. Consequently, assigning to another field of a validly tagged message a value
  whose string rendering differs from that of the field's value makes validation false,
  unless the digest primitive gives the old and the new canonical string the same digest;
  and an assignment that keeps the rendering leaves the outcome of validation as it was.
\<close>

theorem validateSecretKey_iff:
  "(validateSecretKey sha256 (JObj m) \<longleftrightarrow>
      (\<exists>h. createHash sha256 (rest_without (ascii ''secret_key'') m) = Inr h
           \<and> lookup m (ascii ''secret_key'') = JStr h))
   \<and> (validateSecretKey sha256 (JObj m) \<and> distinct (map fst m)
        \<and> key \<noteq> ascii ''secret_key'' \<and> key \<in> set (map fst m)
        \<and> toStr v \<noteq> toStr (lookup m key)
        \<and> (\<forall>c c'. canonical (rest_without (ascii ''secret_key'') m) = Inr c
                  \<and> canonical (rest_without (ascii ''secret_key'') (assign m key v)) = Inr c'
                  \<and> c' \<noteq> c \<longrightarrow> sha256 c' \<noteq> sha256 c)
      \<longrightarrow> \<not> validateSecretKey sha256 (JObj (assign m key v)))
   \<and> (key \<noteq> ascii ''secret_key'' \<and> key \<in> set (map fst m)
        \<and> toStr v = toStr (lookup m key)
      \<longrightarrow> validateSecretKey sha256 (JObj (assign m key v)) = validateSecretKey sha256 (JObj m))"
proof (intro conjI impI)
  show "validateSecretKey sha256 (JObj m) \<longleftrightarrow>
      (\<exists>h. createHash sha256 (rest_without (ascii ''secret_key'') m) = Inr h
           \<and> lookup m (ascii ''secret_key'') = JStr h)"
    by (rule validateSecretKey_obj)
next
  let ?sk = "ascii ''secret_key''"
  let ?rest = "rest_without ?sk m"
  assume h: "validateSecretKey sha256 (JObj m) \<and> distinct (map fst m)
        \<and> key \<noteq> ?sk \<and> key \<in> set (map fst m)
        \<and> toStr v \<noteq> toStr (lookup m key)
        \<and> (\<forall>c c'. canonical ?rest = Inr c
                  \<and> canonical (rest_without ?sk (assign m key v)) = Inr c'
                  \<and> c' \<noteq> c \<longrightarrow> sha256 c' \<noteq> sha256 c)"
  then have key: "key \<noteq> ?sk" "key \<in> set (map fst m)" by simp_all
  then have kr: "key \<in> set (map fst ?rest)" by (simp only: keys_rest) simp
  from h have dr: "distinct (map fst ?rest)" by (simp add: distinct_rest)
  have ra: "rest_without ?sk (assign m key v) = assign ?rest key v"
    by (rule rest_assign [OF key])
  from h obtain c where c: "canonical ?rest = Inr c" "lookup m ?sk = JStr (sha256 c)"
    unfolding validateSecretKey_obj createHash_Inr by blast
  from canonical_renders [OF c(1) kr] key(1) obtain s where
    s: "toStr (lookup ?rest key) = Inr s" "toStr (lookup m key) = Inr s"
    by (auto simp: lookup_rest_other)
  show "\<not> validateSecretKey sha256 (JObj (assign m key v))"
  proof
    assume "validateSecretKey sha256 (JObj (assign m key v))"
    then obtain c' where c': "canonical (assign ?rest key v) = Inr c'"
      "lookup (assign m key v) ?sk = JStr (sha256 c')"
      unfolding validateSecretKey_obj createHash_Inr ra by blast
    from key(1) c(2) c'(2) have same: "sha256 c' = sha256 c"
      by (simp add: lookup_assign_other)
    have "key \<in> set (map fst (assign ?rest key v))"
      using kr by (simp only: keys_assign [OF kr])
    from canonical_renders [OF c'(1) this] obtain s' where s': "toStr v = Inr s'"
      by (auto simp: lookup_assign_same [OF kr])
    with h s(2) have "s' \<noteq> s" by auto
    from canonical_assign_changes [OF dr kr c(1) s(1) s' this] c'(1)
    have "c' \<noteq> c" by auto
    with h c(1) c'(1) ra have "sha256 c' \<noteq> sha256 c" by simp
    with same show False by contradiction
  qed
next
  let ?sk = "ascii ''secret_key''"
  let ?rest = "rest_without ?sk m"
  assume h: "key \<noteq> ?sk \<and> key \<in> set (map fst m) \<and> toStr v = toStr (lookup m key)"
  then have key: "key \<noteq> ?sk" "key \<in> set (map fst m)" by simp_all
  then have kr: "key \<in> set (map fst ?rest)" by (simp only: keys_rest) simp
  have ra: "rest_without ?sk (assign m key v) = assign ?rest key v"
    by (rule rest_assign [OF key])
  from h key(1) have "toStr v = toStr (lookup ?rest key)" by (simp add: lookup_rest_other)
  from canonical_assign_same [OF kr this]
  have "createHash sha256 (assign ?rest key v) = createHash sha256 ?rest"
    by (simp add: createHash_def)
  moreover from key(1) have "lookup (assign m key v) ?sk = lookup m ?sk"
    by (simp add: lookup_assign_other)
  ultimately show "validateSecretKey sha256 (JObj (assign m key v)) = validateSecretKey sha256 (JObj m)"
    unfolding validateSecretKey_obj ra by simp
qed



theorem validateSecretKey_iff_witness:
  "\<forall>sha256.
     validateSecretKey sha256
       (JObj [(ascii ''name'', JStr (ascii ''Asha'')), (ascii ''seat'', JNum (ascii ''7'')),
              (ascii ''secret_key'', JStr (sha256 (ascii ''name:Asha|seat:7'')))])
   \<and> (sha256 (ascii ''name:Usha|seat:7'') = sha256 (ascii ''name:Asha|seat:7'')
       \<or> \<not> validateSecretKey sha256
           (JObj (assign [(ascii ''name'', JStr (ascii ''Asha'')), (ascii ''seat'', JNum (ascii ''7'')),
                          (ascii ''secret_key'', JStr (sha256 (ascii ''name:Asha|seat:7'')))]
                    (ascii ''name'') (JStr (ascii ''Usha'')))))
   \<and> validateSecretKey sha256
       (JObj (assign [(ascii ''name'', JStr (ascii ''Asha'')), (ascii ''seat'', JNum (ascii ''7'')),
                      (ascii ''secret_key'', JStr (sha256 (ascii ''name:Asha|seat:7'')))]
                (ascii ''seat'') (JStr (ascii ''7''))))"
proof
  fix sha256 :: "jsstring \<Rightarrow> jsstring"
  let ?sk = "ascii ''secret_key''"
  let ?m = "[(ascii ''name'', JStr (ascii ''Asha'')), (ascii ''seat'', JNum (ascii ''7'')),
             (?sk, JStr (sha256 (ascii ''name:Asha|seat:7'')))]"
  have valid: "validateSecretKey sha256 (JObj ?m)"
    by (simp add: validateSecretKey_def createHash_def canonical_def lookup_def rest_without_def
        ascii_def chr_def)
  have d: "distinct (map fst ?m)" by (simp add: ascii_def chr_def)
  have k1: "ascii ''name'' \<noteq> ?sk" "ascii ''name'' \<in> set (map fst ?m)"
    and k2: "ascii ''seat'' \<noteq> ?sk" "ascii ''seat'' \<in> set (map fst ?m)"
    by (simp_all add: ascii_def chr_def)
  have r1: "toStr (JStr (ascii ''Usha'')) \<noteq> toStr (lookup ?m (ascii ''name''))"
    and r2: "toStr (JStr (ascii ''7'')) = toStr (lookup ?m (ascii ''seat''))"
    by (simp_all add: lookup_def ascii_def chr_def)
  have c: "canonical (rest_without ?sk ?m) = Inr (ascii ''name:Asha|seat:7'')"
    by (simp add: canonical_def lookup_def rest_without_def ascii_def chr_def)
  have c': "canonical (rest_without ?sk (assign ?m (ascii ''name'') (JStr (ascii ''Usha''))))
      = Inr (ascii ''name:Usha|seat:7'')"
    by (simp add: canonical_def lookup_def rest_without_def assign_def ascii_def chr_def)
  note thm1 = validateSecretKey_iff [of sha256 ?m "ascii ''name''" "JStr (ascii ''Usha'')"]
  note thm2 = validateSecretKey_iff [of sha256 ?m "ascii ''seat''" "JStr (ascii ''7'')"]
  have first: "sha256 (ascii ''name:Usha|seat:7'') = sha256 (ascii ''name:Asha|seat:7'')
       \<or> \<not> validateSecretKey sha256 (JObj (assign ?m (ascii ''name'') (JStr (ascii ''Usha''))))"
  proof (cases "sha256 (ascii ''name:Usha|seat:7'') = sha256 (ascii ''name:Asha|seat:7'')")
    case True
    then show ?thesis by simp
  next
    case False
    with c c' have "\<forall>c c'. canonical (rest_without ?sk ?m) = Inr c
                  \<and> canonical (rest_without ?sk (assign ?m (ascii ''name'') (JStr (ascii ''Usha'')))) = Inr c'
                  \<and> c' \<noteq> c \<longrightarrow> sha256 c' \<noteq> sha256 c"
      by simp
    with thm1 valid d k1 r1 show ?thesis by blast
  qed
  from thm2 k2 r2 valid
  have second: "validateSecretKey sha256 (JObj (assign ?m (ascii ''seat'') (JStr (ascii ''7''))))"
    by blast
  from valid first second
  show "validateSecretKey sha256 (JObj ?m)
   \<and> (sha256 (ascii ''name:Usha|seat:7'') = sha256 (ascii ''name:Asha|seat:7'')
       \<or> \<not> validateSecretKey sha256 (JObj (assign ?m (ascii ''name'') (JStr (ascii ''Usha'')))))
   \<and> validateSecretKey sha256 (JObj (assign ?m (ascii ''seat'') (JStr (ascii ''7''))))"
    by blast
qed


text \<open>
  C3 as stated fails: \<^verbatim>\<open>createHash\<close> digests the string rendering of each value, so
  replacing the value \<^verbatim>\<open>null\<close> of a field by the string \<^verbatim>\<open>'null'\<close> leaves a validly tagged
  message valid, whatever the digest primitive.
\<close>

theorem validateSecretKey_mutation_counterexample:
  "\<forall>sha256.
     JStr (ascii ''null'') \<noteq> JNull
   \<and> validateSecretKey sha256
       (JObj [(ascii ''name'', JNull), (ascii ''origin'', JStr (ascii ''Mumbai'')),
              (ascii ''destination'', JStr (ascii ''Delhi'')),
              (ascii ''secret_key'', JStr (sha256 (ascii ''destination:Delhi|name:null|origin:Mumbai'')))])
   \<and> validateSecretKey sha256
       (JObj (assign [(ascii ''name'', JNull), (ascii ''origin'', JStr (ascii ''Mumbai'')),
              (ascii ''destination'', JStr (ascii ''Delhi'')),
              (ascii ''secret_key'', JStr (sha256 (ascii ''destination:Delhi|name:null|origin:Mumbai'')))]
            (ascii ''name'') (JStr (ascii ''null''))))"
  by (simp add: validateSecretKey_def createHash_def canonical_def lookup_def rest_without_def
      assign_def ascii_def chr_def)

section \<open>Properties of encryption\<close>


lemma hex_digits: "list_all (\<lambda>n. hex_value (hex_digit n) = Some n \<and> hex_digit n \<noteq> chr CHR '':'') [0..<16]"
  by code_simp

lemma hex_value_digit: "n < 16 \<Longrightarrow> hex_value (hex_digit n) = Some n"
  using hex_digits unfolding list_all_iff by simp

lemma hex_digit_not_colon: "n < 16 \<Longrightarrow> hex_digit n \<noteq> chr CHR '':''"
  using hex_digits unfolding list_all_iff by simp

lemma byte_nibbles: "unat (b::byte) div 16 < 16" "unat b mod 16 < 16"
proof -
  have "unat b < 2 ^ LENGTH(8)" by (rule unsigned_less)
  then show "unat b div 16 < 16" by simp
  show "unat b mod 16 < 16" by simp
qed

lemma hex_decode_encode: "hex_decode (hex_encode bs @ rest) = bs @ hex_decode rest"
proof (induction bs)
  case Nil
  show ?case by (simp add: hex_encode_def)
next
  case (Cons b bs)
  have "(of_nat (unat b div 16 * 16 + unat b mod 16) :: byte) = b" by simp
  with Cons show ?case
    by (simp add: hex_encode_def hex_value_digit byte_nibbles)
qed

lemma colon_not_in_hex: "chr CHR '':'' \<notin> set (hex_encode bs)"
proof (induction bs)
  case Nil
  show ?case by (simp add: hex_encode_def)
next
  case (Cons b bs)
  from hex_digit_not_colon [OF byte_nibbles(1) [of b]] hex_digit_not_colon [OF byte_nibbles(2) [of b]] Cons
  show ?case by (auto simp: hex_encode_def)
qed

lemma ctr_involution: "ctr keystream iv (ctr keystream iv bs) = bs"
  by (induction bs rule: rev_induct) (simp_all add: ctr_def xor.assoc)

lemma length_ctr: "length (ctr keystream iv bs) = length bs"
  by (simp add: ctr_def)

lemma split2: "(cp::nat) div 64 * 64 + cp mod 64 = cp"
  by simp

lemma split3: "(cp::nat) div 4096 * 4096 + cp div 64 mod 64 * 64 + cp mod 64 = cp"
proof -
  have "cp div 64 div 64 = cp div 4096" by (simp add: div_mult2_eq [symmetric])
  then have "cp div 4096 * 64 + cp div 64 mod 64 = cp div 64"
    using div_mult_mod_eq [of "cp div 64" 64] by simp
  then have "(cp div 4096 * 64 + cp div 64 mod 64) * 64 + cp mod 64 = cp" by simp
  then show ?thesis by (simp add: algebra_simps)
qed

lemma split4:
  "(cp::nat) div 262144 * 262144 + cp div 4096 mod 64 * 4096 + cp div 64 mod 64 * 64 + cp mod 64 = cp"
proof -
  have "cp div 4096 div 64 = cp div 262144" by (simp add: div_mult2_eq [symmetric])
  then have "cp div 262144 * 64 + cp div 4096 mod 64 = cp div 4096"
    using div_mult_mod_eq [of "cp div 4096" 64] by simp
  then have "(cp div 262144 * 64 + cp div 4096 mod 64) * 4096 + cp div 64 mod 64 * 64 + cp mod 64 = cp"
    using split3 [of cp] by simp
  then show ?thesis by (simp add: algebra_simps)
qed


lemma decode_utf8_bytes:
  assumes "scalar cp"
  shows "decode_points (utf8_bytes cp @ rest) = cp # decode_points rest"
    and "\<forall>b\<in>set (utf8_bytes cp). b < 256"
proof -
  consider "cp < 0x80" | "0x80 \<le> cp" "cp < 0x800" | "0x800 \<le> cp" "cp < 0x10000"
    | "0x10000 \<le> cp" by linarith
  then have "decode_points (utf8_bytes cp @ rest) = cp # decode_points rest
      \<and> (\<forall>b\<in>set (utf8_bytes cp). b < 256)"
  proof cases
    case 1
    then show ?thesis by (simp add: utf8_bytes_def)
  next
    case 2
    define q r where "q = cp div 0x40" and "r = cp mod 0x40"
    have id: "q * 64 + r = cp" and r: "r < 64"
      by (simp_all add: q_def r_def)
    have q: "2 \<le> q" "q \<le> 31" using id r 2 by linarith+
    have bytes: "utf8_bytes cp = [0xC0 + q, 0x80 + r]"
      using 2 by (simp add: utf8_bytes_def q_def r_def)
    show ?thesis unfolding bytes using id r q by (simp add: cont_def)
  next
    case 3
    define q m r where "q = cp div 0x1000" and "m = cp div 0x40 mod 0x40" and "r = cp mod 0x40"
    have id: "q * 4096 + m * 64 + r = cp" and mr: "m < 64" "r < 64"
      using split3 [of cp] by (simp_all add: q_def m_def r_def)
    have q: "q \<le> 15" using id mr 3 by linarith
    have lo: "q = 0 \<longrightarrow> 32 \<le> m" using id mr 3 by linarith
    have hi: "q = 13 \<longrightarrow> m \<le> 31" using id mr assms unfolding scalar_def by linarith
    have bytes: "utf8_bytes cp = [0xE0 + q, 0x80 + m, 0x80 + r]"
      using 3 by (simp add: utf8_bytes_def q_def m_def r_def)
    show ?thesis unfolding bytes using id mr q lo hi by (simp add: cont_def second3_def)
  next
    case 4
    define q m n r where "q = cp div 0x40000" and "m = cp div 0x1000 mod 0x40"
      and "n = cp div 0x40 mod 0x40" and "r = cp mod 0x40"
    have id: "q * 262144 + m * 4096 + n * 64 + r = cp" and mr: "m < 64" "n < 64" "r < 64"
      using split4 [of cp] by (simp_all add: q_def m_def n_def r_def)
    have q: "q \<le> 4" using id mr assms unfolding scalar_def by linarith
    have lo: "q = 0 \<longrightarrow> 16 \<le> m" using id mr 4 by linarith
    have hi: "q = 4 \<longrightarrow> m \<le> 15" using id mr assms unfolding scalar_def by linarith
    have bytes: "utf8_bytes cp = [0xF0 + q, 0x80 + m, 0x80 + n, 0x80 + r]"
      using 4 by (simp add: utf8_bytes_def q_def m_def n_def r_def)
    show ?thesis unfolding bytes using id mr q lo hi by (simp add: cont_def second4_def)
  qed
  then show "decode_points (utf8_bytes cp @ rest) = cp # decode_points rest"
    and "\<forall>b\<in>set (utf8_bytes cp). b < 256" by simp_all
qed


lemma surrogate_nat:
  "is_high u \<longleftrightarrow> 0xD800 \<le> unat u \<and> unat u \<le> 0xDBFF"
  "is_low u \<longleftrightarrow> 0xDC00 \<le> unat u \<and> unat u \<le> 0xDFFF"
  by (simp_all add: is_high_def is_low_def word_le_nat_alt)

lemma unit_bound: "unat (u::jschar) < 65536"
  using unsigned_less [of u, where 'a = nat] by simp

lemma utf16_single:
  assumes "\<not> is_high u" and "\<not> is_low u"
  shows "scalar (unat u)" and "utf16_units (unat u) = [u]"
  using assms unit_bound [of u]
  by (auto simp: scalar_def utf16_units_def surrogate_nat)

lemma utf16_pair:
  assumes "is_high u" and "is_low v"
  defines "cp \<equiv> 0x10000 + (unat u - 0xD800) * 0x400 + (unat v - 0xDC00)"
  shows "scalar cp" and "utf16_units cp = [u, v]"
proof -
  define a b where "a = unat u - 0xD800" and "b = unat v - 0xDC00"
  have a: "a < 1024" "0xD800 + a = unat u" and b: "b < 1024" "0xDC00 + b = unat v"
    using assms(1,2) by (auto simp: a_def b_def surrogate_nat)
  have cp: "cp = 0x10000 + (a * 1024 + b)"
    by (simp add: cp_def a_def b_def)
  from a b show "scalar cp" unfolding cp scalar_def by simp
  have "(a * 1024 + b) div 1024 = a" "(a * 1024 + b) mod 1024 = b"
    using b(1) by simp_all
  then have "utf16_units cp = [of_nat (0xD800 + a), of_nat (0xDC00 + b)]"
    unfolding cp utf16_units_def by simp
  also have "\<dots> = [u, v]" unfolding a(2) b(2) by simp
  finally show "utf16_units cp = [u, v]" .
qed

lemma code_points_well_formed:
  "well_formed s \<Longrightarrow>
     list_all scalar (code_points s) \<and> concat (map utf16_units (code_points s)) = s"
proof (induction s rule: well_formed.induct)
  case 1
  show ?case by simp
next
  case (2 u)
  then show ?case by (simp add: utf16_single)
next
  case (3 u v us)
  show ?case
  proof (cases "is_high u")
    case True
    with 3 show ?thesis by (simp add: utf16_pair)
  next
    case False
    with 3 show ?thesis by (simp add: utf16_single)
  qed
qed

lemma decode_points_concat:
  "list_all scalar cps \<Longrightarrow> decode_points (concat (map utf8_bytes cps)) = cps"
  by (induction cps) (simp_all add: decode_utf8_bytes(1))

lemma utf8_bytes_concat_small:
  "list_all scalar cps \<Longrightarrow> \<forall>b\<in>set (concat (map utf8_bytes cps)). b < 256"
  using decode_utf8_bytes(2) by (auto simp: list_all_iff)

lemma unat_of_nat_bytes:
  "\<forall>b\<in>set bs. b < 256 \<Longrightarrow> map unat (map of_nat bs :: byte list) = bs"
  by (induction bs) (simp_all add: of_nat_inverse)

lemma utf8_decode_encode:
  assumes "well_formed s"
  shows "utf8_decode (utf8_encode s) = s"
proof -
  from assms have sc: "list_all scalar (code_points s)"
    and units: "concat (map utf16_units (code_points s)) = s"
    using code_points_well_formed by blast+
  have "map unat (utf8_encode s) = concat (map utf8_bytes (code_points s))"
    unfolding utf8_encode_def
    by (rule unat_of_nat_bytes) (rule utf8_bytes_concat_small [OF sc])
  then show ?thesis
    by (simp add: utf8_decode_def decode_points_concat [OF sc] units)
qed



lemma lone_surrogate: "utf8_decode (utf8_encode [0xD800]) = [0xFFFD]"
proof -
  have sc: "scalar 0xFFFD" by (simp add: scalar_def)
  have cps: "code_points [0xD800] = [0xFFFD]" by (simp add: is_high_def)
  have "map unat (map of_nat (utf8_bytes 0xFFFD) :: byte list) = utf8_bytes 0xFFFD"
    by (rule unat_of_nat_bytes) (rule decode_utf8_bytes(2) [OF sc])
  then have "map unat (utf8_encode [0xD800]) = utf8_bytes 0xFFFD"
    unfolding utf8_encode_def cps by simp
  moreover have "decode_points (utf8_bytes 0xFFFD) = [0xFFFD]"
    using decode_utf8_bytes(1) [OF sc, of "[]"] by simp
  ultimately show ?thesis by (simp add: utf8_decode_def utf16_units_def)
qed

lemma decrypt_envelope:
  assumes "length iv = 16"
  shows "decrypt keystream (hex_encode iv @ ascii '':'' @ hex_encode ct)
         = Inr (utf8_decode (ctr keystream iv ct))"
proof -
  have "split (chr CHR '':'') (hex_encode iv @ chr CHR '':'' # hex_encode ct)
        = [hex_encode iv, hex_encode ct]"
    by (simp add: split_append_delim split_no_delim colon_not_in_hex)
  then have parts: "split (chr CHR '':'') (hex_encode iv @ ascii '':'' @ hex_encode ct)
        = [hex_encode iv, hex_encode ct]"
    by (simp add: ascii_def)
  have "even (length (hex_encode ct))"
    by (induction ct) (simp_all add: hex_encode_def)
  then show ?thesis
    unfolding decrypt_def parts using assms
    by (simp add: hex_decode_encode [where rest = "[]", simplified])
qed

text \<open>An envelope whose cipher text has an odd number of hex digits is rejected.\<close>

lemma decrypt_odd_length:
  assumes "length iv = 16"
  shows "decrypt keystream (hex_encode iv @ ascii '':'' @ hex_encode ct @ ascii ''0'')
         = Inl InvalidHexLength"
proof -
  have "chr CHR '':'' \<notin> set (hex_encode ct @ [chr CHR ''0''])"
    using colon_not_in_hex [of ct] by (simp add: chr_def)
  then have "split (chr CHR '':'') (hex_encode iv @ chr CHR '':'' # hex_encode ct @ [chr CHR ''0''])
        = [hex_encode iv, hex_encode ct @ [chr CHR ''0'']]"
    by (simp add: split_append_delim split_no_delim colon_not_in_hex)
  then have parts: "split (chr CHR '':'') (hex_encode iv @ ascii '':'' @ hex_encode ct @ ascii ''0'')
        = [hex_encode iv, hex_encode ct @ [chr CHR ''0'']]"
    by (simp add: ascii_def)
  have "even (length (hex_encode ct))"
    by (induction ct) (simp_all add: hex_encode_def)
  then show ?thesis
    unfolding decrypt_def parts using assms
    by (simp add: hex_decode_encode [where rest = "[]", simplified])
qed

text \<open>
  C2, as amended. For every string without unpaired surrogates and every 16-byte
  initialization vector, \<^verbatim>\<open>encrypt\<close> returns the hex of the vector, a colon and the hex of a
  cipher text, and \<^verbatim>\<open>decrypt\<close> of that envelope returns the string, whatever the key stream.
\<close>

theorem decrypt_encrypt:
  "length iv = 16 \<Longrightarrow> well_formed s \<Longrightarrow>
     (\<exists>ct. encrypt keystream iv s = Inr (hex_encode iv @ ascii '':'' @ hex_encode ct)
         \<and> decrypt keystream (hex_encode iv @ ascii '':'' @ hex_encode ct) = Inr s)"
proof -
  assume iv: "length iv = 16" and wf: "well_formed s"
  let ?ct = "ctr keystream iv (utf8_encode s)"
  from iv have "encrypt keystream iv s = Inr (hex_encode iv @ ascii '':'' @ hex_encode ?ct)"
    by (simp add: encrypt_def)
  moreover have "decrypt keystream (hex_encode iv @ ascii '':'' @ hex_encode ?ct) = Inr s"
    by (simp add: decrypt_envelope [OF iv] ctr_involution utf8_decode_encode [OF wf])
  ultimately show ?thesis by blast
qed

theorem decrypt_encrypt_witness:
  "\<forall>keystream. \<exists>ct.
     encrypt keystream (replicate 16 0) (ascii ''Hello, this is a test message!'')
       = Inr (hex_encode (replicate 16 0) @ ascii '':'' @ hex_encode ct)
     \<and> decrypt keystream (hex_encode (replicate 16 0) @ ascii '':'' @ hex_encode ct)
       = Inr (ascii ''Hello, this is a test message!'')"
proof
  fix keystream :: "byte list \<Rightarrow> nat \<Rightarrow> byte"
  have wf: "well_formed (ascii ''Hello, this is a test message!'')"
    by code_simp
  show "\<exists>ct.
     encrypt keystream (replicate 16 0) (ascii ''Hello, this is a test message!'')
       = Inr (hex_encode (replicate 16 0) @ ascii '':'' @ hex_encode ct)
     \<and> decrypt keystream (hex_encode (replicate 16 0) @ ascii '':'' @ hex_encode ct)
       = Inr (ascii ''Hello, this is a test message!'')"
    using decrypt_encrypt [OF _ wf, of "replicate 16 0" keystream] by simp
qed

text \<open>
  C2 as stated fails for a string that is not well formed: the cipher encodes an unpaired
  surrogate as the bytes of U+FFFD, which is what decryption then returns.
\<close>

theorem decrypt_encrypt_counterexample:
  "\<forall>keystream.
     encrypt keystream (replicate 16 0) [0xD800]
       = Inr (hex_encode (replicate 16 0) @ ascii '':''
              @ hex_encode (ctr keystream (replicate 16 0) (utf8_encode [0xD800])))
     \<and> decrypt keystream (hex_encode (replicate 16 0) @ ascii '':''
              @ hex_encode (ctr keystream (replicate 16 0) (utf8_encode [0xD800])))
       = Inr [0xFFFD]
     \<and> [0xFFFD] \<noteq> [0xD800 :: jschar]"
proof (intro allI conjI)
  fix keystream :: "byte list \<Rightarrow> nat \<Rightarrow> byte"
  show "encrypt keystream (replicate 16 0) [0xD800]
       = Inr (hex_encode (replicate 16 0) @ ascii '':''
              @ hex_encode (ctr keystream (replicate 16 0) (utf8_encode [0xD800])))"
    by (simp add: encrypt_def)
  from lone_surrogate show "decrypt keystream (hex_encode (replicate 16 0) @ ascii '':''
              @ hex_encode (ctr keystream (replicate 16 0) (utf8_encode [0xD800])))
       = Inr [0xFFFD]"
    by (simp add: decrypt_envelope ctr_involution)
  show "[0xFFFD] \<noteq> [0xD800 :: jschar]" by simp
qed

section \<open>Properties of the ingestion pipeline\<close>



lemma create_after_findOne_None:
  "findOne (minuteBucket doc) db = None \<Longrightarrow> create doc db = Inr (doc, db @ [doc])"
  by (auto simp: findOne_def create_def find_None_iff)

lemma findOneAndUpdate_after_findOne_Some:
  "findOne key db = Some existing \<Longrightarrow>
     findOneAndUpdate (\<lambda>b. minuteBucket b = key) upd db
       = (Some (upd existing), updateOne (\<lambda>b. minuteBucket b = key) upd db)"
  by (simp add: findOne_def findOneAndUpdate_def)


lemma write_record_ok:
  assumes "\<not> findOne_fails env" and "\<not> write_fails env"
    and "cast_record rt messageData (now env) (decimal (now env) @ ascii ''-'' @ random_suffix env) = Some record"
  shows "\<exists>b db'. write_record rt env messageData db = Inr (Some b, record, db')"
proof (cases "findOne (minuteBucket (createMinuteBucket rt (now env))) db")
  case None
  then have "findOne (minuteBucket (bucket_info.extend (createMinuteBucket rt (now env))
                (bucket.fields [record] 1 [] [] (now env) (now env)))) db = None"
    by (simp add: bucket_info.defs)
  from create_after_findOne_None [OF this] None assms show ?thesis
    by (simp add: write_record_def Let_def)
next
  case (Some existing)
  from findOneAndUpdate_after_findOne_Some [OF this] Some assms show ?thesis
    by (simp add: write_record_def Let_def)
qed



lemma write_record_fail:
  assumes "findOne_fails env \<or> write_fails env
    \<or> cast_record rt messageData (now env) (decimal (now env) @ ascii ''-'' @ random_suffix env) = None"
  shows "\<exists>e. write_record rt env messageData db = Inl e"
proof (cases "findOne_fails env")
  case True
  then show ?thesis by (simp add: write_record_def Let_def)
next
  case False
  show ?thesis
  proof (cases "cast_record rt messageData (now env) (decimal (now env) @ ascii ''-'' @ random_suffix env)")
    case None
    with False show ?thesis by (simp add: write_record_def Let_def)
  next
    case (Some rcd)
    with assms False have "write_fails env" by simp
    with False Some show ?thesis by (simp add: write_record_def Let_def)
  qed
qed


lemma addRecord_persists:
  assumes "persists rt env messageData"
  shows "\<exists>b db'. addRecord rt env messageData db = (Inr (Some b), db')"
proof -
  from assms obtain orig dest rcd where
    o: "toStr (lookup messageData (ascii ''origin'')) = Inr orig"
    and d: "toStr (lookup messageData (ascii ''destination'')) = Inr dest"
    and f: "\<not> findOne_fails env" "\<not> write_fails env"
    and c: "cast_record rt messageData (now env) (decimal (now env) @ ascii ''-'' @ random_suffix env) = Some rcd"
    unfolding persists_def by blast
  from write_record_ok [OF f c] obtain b db' where
    "write_record rt env messageData db = Inr (Some b, rcd, db')" by blast
  with o d show ?thesis by (simp add: addRecord_def)
qed

lemma addRecord_not_persists:
  assumes "\<not> persists rt env messageData"
  shows "\<exists>e. addRecord rt env messageData db = (Inl e, db)"
proof (cases "toStr (lookup messageData (ascii ''origin''))")
  case (Inl e)
  then show ?thesis by (simp add: addRecord_def)
next
  case o: (Inr orig)
  show ?thesis
  proof (cases "toStr (lookup messageData (ascii ''destination''))")
    case (Inl e)
    with o show ?thesis by (simp add: addRecord_def)
  next
    case d: (Inr dest)
    from assms o d have "findOne_fails env \<or> write_fails env
      \<or> cast_record rt messageData (now env) (decimal (now env) @ ascii ''-'' @ random_suffix env) = None"
      unfolding persists_def by blast
    from write_record_fail [OF this] obtain e where
      "write_record rt env messageData db = Inl e" by blast
    with o d show ?thesis by (simp add: addRecord_def)
  qed
qed

lemma well_formed_item:
  assumes "\<not> malformed rt msg"
  obtains s m ps where "decrypt (rt_keystream rt) msg = Inr s"
    and "rt_JSON_parse rt s = Inr m" and "validateSecretKey (rt_sha256 rt) m"
    and "own_props m = Inr ps" and "payload rt msg = rest_without (ascii ''secret_key'') ps"
proof -
  from assms obtain s where s: "decrypt (rt_keystream rt) msg = Inr s"
    by (cases "decrypt (rt_keystream rt) msg") (simp_all add: malformed_def)
  with assms obtain m where m: "rt_JSON_parse rt s = Inr m"
    by (cases "rt_JSON_parse rt s") (simp_all add: malformed_def)
  with assms s have v: "validateSecretKey (rt_sha256 rt) m"
    by (simp add: malformed_def)
  then obtain ps where ps: "own_props m = Inr ps"
    by (cases "own_props m") (simp_all add: validateSecretKey_def)
  from s m ps have "payload rt msg = rest_without (ascii ''secret_key'') ps"
    by (simp add: payload_def)
  with s m v ps show ?thesis by (rule that)
qed

lemma process_malformed:
  assumes "malformed rt msg"
  shows "\<exists>r. processEncryptedMessage rt env msg i db = (Inr r, db) \<and> \<not> valid r \<and> \<not> saved r"
proof (cases "decrypt (rt_keystream rt) msg")
  case (Inl e)
  then show ?thesis by (simp add: processEncryptedMessage_def process_body_def)
next
  case s: (Inr s)
  show ?thesis
  proof (cases "rt_JSON_parse rt s")
    case (Inl e)
    with s show ?thesis by (simp add: processEncryptedMessage_def process_body_def)
  next
    case (Inr m)
    with s assms have "\<not> validateSecretKey (rt_sha256 rt) m" by (simp add: malformed_def)
    with s Inr show ?thesis by (simp add: processEncryptedMessage_def process_body_def)
  qed
qed

lemma process_saved:
  assumes "\<not> malformed rt msg" and "persists rt env (payload rt msg)"
  shows "\<exists>r db'. processEncryptedMessage rt env msg i db = (Inr r, db') \<and> valid r \<and> saved r"
proof -
  from assms(1) obtain s m ps where item: "decrypt (rt_keystream rt) msg = Inr s"
    "rt_JSON_parse rt s = Inr m" "validateSecretKey (rt_sha256 rt) m"
    "own_props m = Inr ps" "payload rt msg = rest_without (ascii ''secret_key'') ps"
    by (rule well_formed_item)
  from assms(2) have "persists rt env (rest_without (ascii ''secret_key'') ps)"
    by (simp add: item(5))
  from addRecord_persists [OF this, where db = db] obtain b db' where
    "addRecord rt env (rest_without (ascii ''secret_key'') ps) db = (Inr (Some b), db')" by blast
  with item show ?thesis by (simp add: processEncryptedMessage_def process_body_def)
qed

lemma process_unsaved:
  assumes "\<not> malformed rt msg" and "\<not> persists rt env (payload rt msg)"
  shows "\<exists>e. processEncryptedMessage rt env msg i db
           = (Inr \<lparr> valid = False, saved = False, reason = Some (ErrorMessage e),
                     data = None, savedBucket = None \<rparr>, db)"
proof -
  from assms(1) obtain s m ps where item: "decrypt (rt_keystream rt) msg = Inr s"
    "rt_JSON_parse rt s = Inr m" "validateSecretKey (rt_sha256 rt) m"
    "own_props m = Inr ps" "payload rt msg = rest_without (ascii ''secret_key'') ps"
    by (rule well_formed_item)
  from assms(2) have "\<not> persists rt env (rest_without (ascii ''secret_key'') ps)"
    by (simp add: item(5))
  from addRecord_not_persists [OF this, where db = db] obtain e where
    "addRecord rt env (rest_without (ascii ''secret_key'') ps) db = (Inl e, db)" by blast
  with item show ?thesis by (simp add: processEncryptedMessage_def process_body_def)
qed

lemma process_item:
  "\<exists>r db'. processEncryptedMessage rt env msg i db = (Inr r, db')
     \<and> valid r = (\<not> malformed rt msg \<and> persists rt env (payload rt msg))
     \<and> saved r = valid r"
proof (cases "malformed rt msg")
  case True
  from process_malformed [OF this, where env = env and i = i and db = db] True
  show ?thesis by auto
next
  case False
  show ?thesis
  proof (cases "persists rt env (payload rt msg)")
    case True
    from process_saved [OF False this, where i = i and db = db] False True
    show ?thesis by auto
  next
    case np: False
    from process_unsaved [OF False this, where i = i and db = db] obtain e where
      "processEncryptedMessage rt env msg i db
           = (Inr \<lparr> valid = False, saved = False, reason = Some (ErrorMessage e),
                     data = None, savedBucket = None \<rparr>, db)" by blast
    with np show ?thesis by simp
  qed
qed




lemma zip_upt_Cons:
  "zip (m # ms) [i..<i + length (m # ms)] = (m, i) # zip ms [Suc i..<Suc i + length ms]"
proof -
  have "[i..<i + length (m # ms)] = i # [Suc i..<Suc i + length ms]"
    by (subst upt_rec) simp
  then show ?thesis by simp
qed

lemma process_loop_counts:
  "process_loop rt envs msgs i res db = (res', db') \<Longrightarrow>
     messageCount res' = messageCount res \<and> errors res' = errors res
     \<and> processedCount res' = processedCount res + length msgs
     \<and> validCount res' = validCount res
          + length (filter (\<lambda>(m, k). \<not> malformed rt m \<and> persists rt (envs k) (payload rt m))
                     (zip msgs [i..<i + length msgs]))
     \<and> savedCount res' = savedCount res
          + length (filter (\<lambda>(m, k). \<not> malformed rt m \<and> persists rt (envs k) (payload rt m))
                     (zip msgs [i..<i + length msgs]))
     \<and> invalidCount res' = invalidCount res
          + length (filter (\<lambda>(m, k). \<not> (\<not> malformed rt m \<and> persists rt (envs k) (payload rt m)))
                     (zip msgs [i..<i + length msgs]))"
proof (induction msgs arbitrary: i res db)
  case Nil
  then show ?case by simp
next
  case (Cons m ms)
  from process_item [of rt "envs i" m i db] obtain r db1 where
    r: "processEncryptedMessage rt (envs i) m i db = (Inr r, db1)"
      "valid r = (\<not> malformed rt m \<and> persists rt (envs i) (payload rt m))"
      "saved r = valid r" by blast
  show ?case
  proof (cases "valid r")
    case True
    with r Cons.prems have
      "process_loop rt envs ms (Suc i)
         (res\<lparr>processedCount := processedCount res + 1, validCount := validCount res + 1,
               savedCount := savedCount res + 1\<rparr>) db1 = (res', db')"
      by (simp add: Let_def)
    from Cons.IH [OF this] True r(2) show ?thesis
      unfolding zip_upt_Cons by simp
  next
    case False
    with r Cons.prems have
      "process_loop rt envs ms (Suc i)
         (res\<lparr>processedCount := processedCount res + 1,
               invalidCount := invalidCount res + 1\<rparr>) db1 = (res', db')"
      by (simp add: Let_def)
    from Cons.IH [OF this] False r(2) show ?thesis
      unfolding zip_upt_Cons by simp
  qed
qed



lemma handle_failed:
  assumes "batch_of dat = Inl e"
  shows "\<exists>st'. handleMessageStream rt envs dat st = (processing_error e, st')
           \<and> stats st' = stats st \<and> collection st' = collection st"
  using assms
  by (auto simp: handleMessageStream_def batch_of_def Let_def split: sum.splits)

lemma handle_decoded:
  assumes "batch_of dat = Inr msgs"
    and "process_loop rt envs msgs 0
           \<lparr> messageCount = length msgs, processedCount = 0, validCount = 0,
             invalidCount = 0, savedCount = 0, errors = [] \<rparr> (collection st) = (res, db')"
  shows "\<exists>st'. handleMessageStream rt envs dat st = (message_received res, st')
           \<and> collection st' = db'
           \<and> totalReceived (stats st') = totalReceived (stats st) + length msgs
           \<and> totalProcessed (stats st') = totalProcessed (stats st) + processedCount res
           \<and> totalValid (stats st') = totalValid (stats st) + validCount res
           \<and> totalInvalid (stats st') = totalInvalid (stats st) + invalidCount res
           \<and> totalSaved (stats st') = totalSaved (stats st) + savedCount res
           \<and> errorsTotal (stats st') = errorsTotal (stats st) + length (errors res)"
  using assms
  by (auto simp: handleMessageStream_def batch_of_def Let_def split: sum.splits)

lemma count_indices:
  "length (filter (\<lambda>(m, k). P k m) (zip msgs [0..<0 + length msgs]))
     = card {k. k < length msgs \<and> P k (msgs ! k)}"
proof -
  have "{i. i < length (zip msgs [0..<length msgs])
            \<and> (\<lambda>(m, k). P k m) (zip msgs [0..<length msgs] ! i)}
        = {k. k < length msgs \<and> P k (msgs ! k)}"
    by auto
  then show ?thesis
    by (simp add: length_filter_conv_card)
qed

section \<open>Facts about the example inputs\<close>


lemma hex_chars:
  "list_all (\<lambda>n. hex_digit n \<noteq> chr CHR ''|'' \<and> \<not> is_ws (hex_digit n)) [0..<16]"
  by code_simp

lemma hex_encode_plain: "c \<in> set (hex_encode bs) \<Longrightarrow> c \<noteq> chr CHR ''|'' \<and> \<not> is_ws c"
proof (induction bs)
  case Nil
  then show ?case by (simp add: hex_encode_def)
next
  case (Cons b bs)
  from hex_chars byte_nibbles [of b]
  have "hex_digit (unat b div 16) \<noteq> chr CHR ''|'' \<and> \<not> is_ws (hex_digit (unat b div 16))"
    and "hex_digit (unat b mod 16) \<noteq> chr CHR ''|'' \<and> \<not> is_ws (hex_digit (unat b mod 16))"
    unfolding list_all_iff by simp_all
  with Cons show ?case by (auto simp: hex_encode_def)
qed

lemma example_envelope_plain:
  "chr CHR ''|'' \<notin> set (example_envelope keystream)"
  "\<exists>c\<in>set (example_envelope keystream). \<not> is_ws c"
proof -
  have colon: "chr CHR '':'' \<noteq> chr CHR ''|''" "\<not> is_ws (chr CHR '':'')"
    by (simp_all add: chr_def is_ws_def)
  with hex_encode_plain show "chr CHR ''|'' \<notin> set (example_envelope keystream)"
    by (auto simp: example_envelope_def ascii_def)
  from colon show "\<exists>c\<in>set (example_envelope keystream). \<not> is_ws c"
    by (auto simp: example_envelope_def ascii_def)
qed

lemma example_text_well_formed: "well_formed example_text"
  unfolding example_text_def by code_simp

lemma decrypt_example: "decrypt keystream (example_envelope keystream) = Inr example_text"
  unfolding example_envelope_def
  by (simp add: decrypt_envelope ctr_involution utf8_decode_encode example_text_well_formed)

lemma example_message_valid: "validateSecretKey sha256 (JObj (example_message sha256))"
  by (simp add: validateSecretKey_def createHash_def canonical_def lookup_def rest_without_def
      example_message_def ascii_def chr_def)

lemma example_not_malformed:
  "\<not> malformed (example_runtime sha256 keystream) (example_envelope keystream)"
  by (simp add: malformed_def example_runtime_def decrypt_example example_message_valid)

lemma example_payload:
  "payload (example_runtime sha256 keystream) (example_envelope keystream)
     = [(ascii ''name'', JStr (ascii ''Asha'')), (ascii ''origin'', JStr (ascii ''Mumbai'')),
        (ascii ''destination'', JStr (ascii ''Delhi''))]"
  by (simp add: payload_def example_runtime_def decrypt_example example_message_def
      rest_without_def ascii_def chr_def)



lemma parse_joined:
  assumes "xs \<noteq> []" and "\<forall>x\<in>set xs. chr CHR ''|'' \<notin> set x \<and> (\<exists>c\<in>set x. \<not> is_ws c)"
  shows "parseMessageStream (JStr (createMessageStream xs)) = Inr xs"
proof -
  have pipe: "ascii ''|'' = [chr CHR ''|'']"
    by (simp add: ascii_def)
  from assms have "hd xs \<in> set xs" by simp
  with assms have "hd xs \<noteq> []" by fastforce
  with assms have ne: "createMessageStream xs \<noteq> []"
    by (simp add: createMessageStream_def join_nonempty)
  from assms have sp: "split (chr CHR ''|'') (createMessageStream xs) = xs"
    by (simp add: createMessageStream_def pipe split_join)
  from assms have "filter (\<lambda>msg. length (trim msg) > 0) xs = xs"
    by (simp add: trim_nonempty_iff filter_id_conv)
  with ne sp show ?thesis by simp
qed

lemma batch_of_event:
  "batch_of (batch_event msgs isoNow) = parseMessageStream (JStr (createMessageStream msgs))"
  by (simp add: batch_of_def batch_event_def Let_def lookup_def ascii_def chr_def)

lemma garbage_plain:
  "chr CHR ''|'' \<notin> set (ascii ''garbage'')" "\<exists>c\<in>set (ascii ''garbage''). \<not> is_ws c"
  by (simp_all add: ascii_def chr_def is_ws_def)

lemma garbage_malformed: "malformed rt (ascii ''garbage'')"
  by (simp add: malformed_def decrypt_def ascii_def chr_def)

lemma odd_envelope_malformed:
  "malformed rt (example_envelope (rt_keystream rt) @ ascii ''0'')"
  by (simp add: malformed_def example_envelope_def decrypt_odd_length)

lemma example_persists:
  "persists (example_runtime sha256 keystream) example_env
     (payload (example_runtime sha256 keystream) (example_envelope keystream))"
  unfolding example_payload
  by (simp add: persists_def cast_record_def example_runtime_def example_env_def
      example_castString_def lookup_def ascii_def chr_def)

lemma example_batch:
  "batch_of (batch_event [example_envelope keystream, ascii ''garbage'', example_envelope keystream] isoNow)
     = Inr [example_envelope keystream, ascii ''garbage'', example_envelope keystream]"
  unfolding batch_of_event
  by (rule parse_joined) (use example_envelope_plain garbage_plain in auto)

section \<open>The claims on the ingestion pipeline\<close>



lemma handle_counts:
  assumes "batch_of dat = Inr msgs"
  shows "\<exists>res st'. handleMessageStream rt envs dat st = (message_received res, st')
     \<and> messageCount res = length msgs \<and> errors res = []
     \<and> processedCount res = length msgs
     \<and> validCount res = card {k. k < length msgs
            \<and> (\<not> malformed rt (msgs ! k) \<and> persists rt (envs k) (payload rt (msgs ! k)))}
     \<and> savedCount res = validCount res
     \<and> invalidCount res = card {k. k < length msgs
            \<and> \<not> (\<not> malformed rt (msgs ! k) \<and> persists rt (envs k) (payload rt (msgs ! k)))}
     \<and> errorsTotal (stats st') = errorsTotal (stats st)"
proof -
  let ?res0 = "\<lparr> messageCount = length msgs, processedCount = 0, validCount = 0,
             invalidCount = 0, savedCount = 0, errors = [] \<rparr>"
  obtain res db' where loop: "process_loop rt envs msgs 0 ?res0 (collection st) = (res, db')"
    by (cases "process_loop rt envs msgs 0 ?res0 (collection st)")
  note counts = process_loop_counts [OF loop, unfolded count_indices]
  from handle_decoded [OF assms loop] obtain st' where
    h: "handleMessageStream rt envs dat st = (message_received res, st')"
      "errorsTotal (stats st') = errorsTotal (stats st) + length (errors res)"
    by blast
  from counts h show ?thesis by simp
qed

text \<open>
  C10. \<^verbatim>\<open>processEncryptedMessage\<close> returns a result for every envelope, in every state
  and environment: it never throws. Hence for every event whose stream decodes, the
  acknowledgment has \<^verbatim>\<open>processedCount = messageCount\<close>, \<^verbatim>\<open>validCount + invalidCount =
  processedCount\<close> and no errors, and the counter \<^verbatim>\<open>errors\<close> of the process keeps its value:
  the \<^verbatim>\<open>catch\<close> of the batch loop is never entered.
\<close>

theorem item_processing_total:
  "(\<exists>r db'. processEncryptedMessage rt env msg i db = (Inr r, db'))
   \<and> (batch_of dat = Inr msgs \<longrightarrow>
        (\<exists>res st'. handleMessageStream rt envs dat st = (message_received res, st')
           \<and> messageCount res = length msgs
           \<and> processedCount res = messageCount res
           \<and> validCount res + invalidCount res = processedCount res
           \<and> errors res = []
           \<and> errorsTotal (stats st') = errorsTotal (stats st)))"
proof (intro conjI impI)
  from process_item [of rt env msg i db]
  show "\<exists>r db'. processEncryptedMessage rt env msg i db = (Inr r, db')" by blast
next
  assume b: "batch_of dat = Inr msgs"
  let ?acc = "\<lambda>k. \<not> malformed rt (msgs ! k) \<and> persists rt (envs k) (payload rt (msgs ! k))"
  from handle_counts [OF b, of rt envs st] obtain res st' where
    h: "handleMessageStream rt envs dat st = (message_received res, st')"
      "messageCount res = length msgs" "errors res = []" "processedCount res = length msgs"
      "validCount res = card {k. k < length msgs \<and> ?acc k}"
      "invalidCount res = card {k. k < length msgs \<and> \<not> ?acc k}"
      "errorsTotal (stats st') = errorsTotal (stats st)"
    by blast
  have "{k. k < length msgs \<and> ?acc k} \<union> {k. k < length msgs \<and> \<not> ?acc k} = {..<length msgs}"
    by auto
  moreover have "{k. k < length msgs \<and> ?acc k} \<inter> {k. k < length msgs \<and> \<not> ?acc k} = {}"
    by auto
  ultimately have "card {k. k < length msgs \<and> ?acc k} + card {k. k < length msgs \<and> \<not> ?acc k}
      = length msgs"
    by (metis (no_types, lifting) card_Un_disjoint card_lessThan finite_Un finite_lessThan)
  with h show "\<exists>res st'. handleMessageStream rt envs dat st = (message_received res, st')
           \<and> messageCount res = length msgs
           \<and> processedCount res = messageCount res
           \<and> validCount res + invalidCount res = processedCount res
           \<and> errors res = []
           \<and> errorsTotal (stats st') = errorsTotal (stats st)"
    by simp
qed

text \<open>
  C8. When the event does not decode into a batch (the stream is empty or not a string:
  the format error; or reading the event throws), \<^verbatim>\<open>handleMessageStream\<close> emits
  \<^verbatim>\<open>processing_error\<close> with that error instead of the acknowledgment, and neither the
  counters nor the collection change.
\<close>

theorem format_error_aborts_batch:
  "batch_of dat = Inl e \<Longrightarrow>
     (\<exists>st'. handleMessageStream rt envs dat st = (processing_error e, st')
        \<and> stats st' = stats st \<and> collection st' = collection st)"
  by (rule handle_failed)

text \<open>
  C1. In a batch of \<open>N\<close> envelopes of which the one at index \<open>j\<close> is malformed and all
  others are well formed and persist, the loop runs to its end and the acknowledgment
  reports \<open>N\<close> processed, one invalid and \<open>N - 1\<close> valid items, with no error recorded.
\<close>

theorem partial_failure_isolation:
  assumes "batch_of dat = Inr msgs"
    and "j < length msgs" and "malformed rt (msgs ! j)"
    and "\<forall>k < length msgs. k \<noteq> j \<longrightarrow>
           \<not> malformed rt (msgs ! k) \<and> persists rt (envs k) (payload rt (msgs ! k))"
  shows "\<exists>res st'. handleMessageStream rt envs dat st = (message_received res, st')
     \<and> processedCount res = length msgs \<and> invalidCount res = 1
     \<and> validCount res = length msgs - 1 \<and> errors res = []"
proof -
  let ?acc = "\<lambda>k. \<not> malformed rt (msgs ! k) \<and> persists rt (envs k) (payload rt (msgs ! k))"
  from handle_counts [OF assms(1), of rt envs st] obtain res st' where
    h: "handleMessageStream rt envs dat st = (message_received res, st')"
      "errors res = []" "processedCount res = length msgs"
      "validCount res = card {k. k < length msgs \<and> ?acc k}"
      "invalidCount res = card {k. k < length msgs \<and> \<not> ?acc k}"
    by blast
  from assms(2-4) have bad: "{k. k < length msgs \<and> \<not> ?acc k} = {j}" by auto
  from assms(2-4) have "{k. k < length msgs \<and> ?acc k} = {..<length msgs} - {j}" by auto
  with assms(2) have "card {k. k < length msgs \<and> ?acc k} = length msgs - 1" by simp
  with h bad show ?thesis by simp
qed

text \<open>
  C7, what the code does. An item that decrypts, parses and carries a valid tag, but whose
  \<^verbatim>\<open>addRecord\<close> call throws, is returned by \<^verbatim>\<open>processEncryptedMessage\<close> as
  \<^verbatim>\<open>{ valid: false, saved: false }\<close>: the batch counts it as invalid, not as valid and
  unsaved.
\<close>

theorem persistence_failure_counted_invalid:
  assumes "\<not> malformed rt msg" and "\<not> persists rt env (payload rt msg)"
  shows "(\<exists>e. processEncryptedMessage rt env msg i db
            = (Inr \<lparr> valid = False, saved = False, reason = Some (ErrorMessage e),
                      data = None, savedBucket = None \<rparr>, db))
     \<and> (batch_of dat = Inr [msg] \<longrightarrow>
          (\<exists>res st'. handleMessageStream rt (\<lambda>k. env) dat st = (message_received res, st')
             \<and> validCount res = 0 \<and> savedCount res = 0 \<and> invalidCount res = 1))"
proof (intro conjI impI)
  from process_unsaved [OF assms, where i = i and db = db]
  show "\<exists>e. processEncryptedMessage rt env msg i db
            = (Inr \<lparr> valid = False, saved = False, reason = Some (ErrorMessage e),
                      data = None, savedBucket = None \<rparr>, db)" .
next
  assume b: "batch_of dat = Inr [msg]"
  let ?acc = "\<lambda>k. \<not> malformed rt ([msg] ! k) \<and> persists rt env (payload rt ([msg] ! k))"
  from assms have none: "{k. k < length [msg] \<and> ?acc k} = {}" by auto
  from assms have one: "{k. k < length [msg] \<and> \<not> ?acc k} = {0}" by auto
  from handle_counts [OF b, of rt "\<lambda>k. env" st] obtain res st' where
    "handleMessageStream rt (\<lambda>k. env) dat st = (message_received res, st')"
    "validCount res = card {k. k < length [msg] \<and> ?acc k}"
    "savedCount res = validCount res"
    "invalidCount res = card {k. k < length [msg] \<and> \<not> ?acc k}"
    by blast
  then show "\<exists>res st'. handleMessageStream rt (\<lambda>k. env) dat st = (message_received res, st')
             \<and> validCount res = 0 \<and> savedCount res = 0 \<and> invalidCount res = 1"
    unfolding none one by simp
qed


theorem item_processing_total_witness:
  "\<forall>sha256 keystream.
     (\<exists>r db'. processEncryptedMessage (example_runtime sha256 keystream) example_env
                 (ascii ''garbage'') 1 [] = (Inr r, db'))
     \<and> (\<exists>res st'.
           handleMessageStream (example_runtime sha256 keystream) (\<lambda>k. example_env)
             (batch_event [example_envelope keystream, ascii ''garbage'', example_envelope keystream]
                (ascii ''2023-11-14T22:13:20.000Z''))
             example_listener = (message_received res, st')
           \<and> messageCount res = 3 \<and> processedCount res = 3
           \<and> validCount res + invalidCount res = 3 \<and> errors res = []
           \<and> errorsTotal (stats st') = 0)"
proof (intro allI)
  fix sha256 :: "jsstring \<Rightarrow> jsstring" and keystream :: "byte list \<Rightarrow> nat \<Rightarrow> byte"
  from item_processing_total [of "example_runtime sha256 keystream" example_env "ascii ''garbage''" 1 "[]"
      "batch_event [example_envelope keystream, ascii ''garbage'', example_envelope keystream]
         (ascii ''2023-11-14T22:13:20.000Z'')"
      "[example_envelope keystream, ascii ''garbage'', example_envelope keystream]"
      "\<lambda>k. example_env" example_listener]
    example_batch [of keystream "ascii ''2023-11-14T22:13:20.000Z''"]
  show "(\<exists>r db'. processEncryptedMessage (example_runtime sha256 keystream) example_env
                 (ascii ''garbage'') 1 [] = (Inr r, db'))
     \<and> (\<exists>res st'.
           handleMessageStream (example_runtime sha256 keystream) (\<lambda>k. example_env)
             (batch_event [example_envelope keystream, ascii ''garbage'', example_envelope keystream]
                (ascii ''2023-11-14T22:13:20.000Z''))
             example_listener = (message_received res, st')
           \<and> messageCount res = 3 \<and> processedCount res = 3
           \<and> validCount res + invalidCount res = 3 \<and> errors res = []
           \<and> errorsTotal (stats st') = 0)"
    by (auto simp: example_listener_def)
qed

theorem format_error_aborts_batch_witness:
  "\<forall>rt envs. \<exists>st'.
     handleMessageStream rt envs (batch_event [] (ascii ''2023-11-14T22:13:20.000Z'')) example_listener
       = (processing_error InvalidMessageStreamFormat, st')
     \<and> stats st' = stats example_listener \<and> collection st' = collection example_listener"
proof (intro allI)
  fix rt :: runtime and envs :: "nat \<Rightarrow> call_env"
  have "batch_of (batch_event [] (ascii ''2023-11-14T22:13:20.000Z'')) = Inl InvalidMessageStreamFormat"
    by (simp add: batch_of_event createMessageStream_def)
  from format_error_aborts_batch [OF this]
  show "\<exists>st'.
     handleMessageStream rt envs (batch_event [] (ascii ''2023-11-14T22:13:20.000Z'')) example_listener
       = (processing_error InvalidMessageStreamFormat, st')
     \<and> stats st' = stats example_listener \<and> collection st' = collection example_listener" .
qed

theorem partial_failure_isolation_witness:
  "\<forall>sha256 keystream. \<exists>res st'.
     handleMessageStream (example_runtime sha256 keystream) (\<lambda>k. example_env)
       (batch_event [example_envelope keystream, ascii ''garbage'', example_envelope keystream]
          (ascii ''2023-11-14T22:13:20.000Z''))
       example_listener = (message_received res, st')
     \<and> processedCount res = 3 \<and> invalidCount res = 1 \<and> validCount res = 2 \<and> errors res = []"
proof (intro allI)
  fix sha256 :: "jsstring \<Rightarrow> jsstring" and keystream :: "byte list \<Rightarrow> nat \<Rightarrow> byte"
  let ?rt = "example_runtime sha256 keystream"
  let ?msgs = "[example_envelope keystream, ascii ''garbage'', example_envelope keystream]"
  have j: "1 < length ?msgs" by simp
  have bad: "malformed ?rt (?msgs ! 1)" by (simp add: garbage_malformed)
  have good: "\<forall>k < length ?msgs. k \<noteq> 1 \<longrightarrow>
           \<not> malformed ?rt (?msgs ! k) \<and> persists ?rt ((\<lambda>k. example_env) k) (payload ?rt (?msgs ! k))"
  proof (intro allI impI)
    fix k assume "k < length ?msgs" and "k \<noteq> 1"
    then have "k = 0 \<or> k = 2" by auto
    then have "?msgs ! k = example_envelope keystream" by auto
    then show "\<not> malformed ?rt (?msgs ! k) \<and> persists ?rt ((\<lambda>k. example_env) k) (payload ?rt (?msgs ! k))"
      by (simp add: example_not_malformed example_persists)
  qed
  from partial_failure_isolation [OF example_batch j bad good, of "ascii ''2023-11-14T22:13:20.000Z''" example_listener]
  show "\<exists>res st'.
     handleMessageStream ?rt (\<lambda>k. example_env)
       (batch_event ?msgs (ascii ''2023-11-14T22:13:20.000Z''))
       example_listener = (message_received res, st')
     \<and> processedCount res = 3 \<and> invalidCount res = 1 \<and> validCount res = 2 \<and> errors res = []"
    by (simp add: numeral_2_eq_2 numeral_3_eq_3)
qed

theorem persistence_failure_counted_invalid_witness:
  "\<forall>sha256 keystream.
     (\<exists>e. processEncryptedMessage (example_runtime sha256 keystream)
             (example_env\<lparr>write_fails := True\<rparr>) (example_envelope keystream) 0 []
            = (Inr \<lparr> valid = False, saved = False, reason = Some (ErrorMessage e),
                      data = None, savedBucket = None \<rparr>, []))
     \<and> (\<exists>res st'.
           handleMessageStream (example_runtime sha256 keystream)
             (\<lambda>k. example_env\<lparr>write_fails := True\<rparr>)
             (batch_event [example_envelope keystream] (ascii ''2023-11-14T22:13:20.000Z''))
             example_listener = (message_received res, st')
           \<and> validCount res = 0 \<and> savedCount res = 0 \<and> invalidCount res = 1)"
proof (intro allI)
  fix sha256 :: "jsstring \<Rightarrow> jsstring" and keystream :: "byte list \<Rightarrow> nat \<Rightarrow> byte"
  let ?rt = "example_runtime sha256 keystream"
  have np: "\<not> persists ?rt (example_env\<lparr>write_fails := True\<rparr>) (payload ?rt (example_envelope keystream))"
    by (simp add: persists_def)
  have b: "batch_of (batch_event [example_envelope keystream] (ascii ''2023-11-14T22:13:20.000Z''))
      = Inr [example_envelope keystream]"
    unfolding batch_of_event
    by (rule parse_joined) (use example_envelope_plain in auto)
  from persistence_failure_counted_invalid [OF example_not_malformed np, of 0 "[]"
      "batch_event [example_envelope keystream] (ascii ''2023-11-14T22:13:20.000Z'')" example_listener] b
  show "(\<exists>e. processEncryptedMessage ?rt
             (example_env\<lparr>write_fails := True\<rparr>) (example_envelope keystream) 0 []
            = (Inr \<lparr> valid = False, saved = False, reason = Some (ErrorMessage e),
                      data = None, savedBucket = None \<rparr>, []))
     \<and> (\<exists>res st'.
           handleMessageStream ?rt
             (\<lambda>k. example_env\<lparr>write_fails := True\<rparr>)
             (batch_event [example_envelope keystream] (ascii ''2023-11-14T22:13:20.000Z''))
             example_listener = (message_received res, st')
           \<and> validCount res = 0 \<and> savedCount res = 0 \<and> invalidCount res = 1)"
    by simp
qed

section \<open>Properties of the minute buckets\<close>

lemma keys_inc_first: "map fst (inc_first k es) = map fst es"
  by (induction es) auto

lemma keys_inc_first_set: "fst ` set (inc_first k es) = fst ` set es"
  using keys_inc_first [of k es] by (metis list.set_map)

lemma sum_inc_first:
  "k \<in> set (map fst es) \<Longrightarrow> sum_list (map snd (inc_first k es)) = sum_list (map snd es) + 1"
  by (induction es) auto

lemma updateOne_no_match:
  "filter (\<lambda>b. minuteBucket b = key) db = [] \<Longrightarrow>
     updateOne (\<lambda>b. minuteBucket b = key \<and> Q b) upd db = db"
  by (induction db) (auto split: if_splits)

lemma updateOne_single:
  assumes "filter (\<lambda>b. minuteBucket b = key) db = [b]"
    and "minuteBucket (upd b) = key"
  shows "filter (\<lambda>b. minuteBucket b = key) (updateOne (\<lambda>b. minuteBucket b = key \<and> Q b) upd db)
         = [if Q b then upd b else b]"
  using assms
proof (induction db)
  case Nil
  then show ?case by simp
next
  case (Cons x xs)
  show ?case
  proof (cases "minuteBucket x = key")
    case True
    with Cons.prems have x: "x = b" and rest: "filter (\<lambda>b. minuteBucket b = key) xs = []"
      by simp_all
    from True x rest Cons.prems(2) show ?thesis
      by (simp add: updateOne_no_match)
  next
    case False
    with Cons show ?thesis by simp
  qed
qed

lemma find_as_filter:
  "find P xs = (case filter P xs of [] \<Rightarrow> None | x # _ \<Rightarrow> Some x)"
  by (induction xs) auto

lemma updateOne_key_single:
  assumes "filter (\<lambda>b. minuteBucket b = key) db = [b]" and "minuteBucket (upd b) = key"
  shows "filter (\<lambda>b. minuteBucket b = key) (updateOne (\<lambda>b. minuteBucket b = key) upd db) = [upd b]"
  using updateOne_single [where Q = "\<lambda>b. True" and upd = upd and b = b and key = key and db = db] assms
  by simp

lemma count_update:
  assumes "i < length cs"
    and "\<And>j. j < length cs \<Longrightarrow> j \<noteq> i \<Longrightarrow> P' (cs ! j) = P (cs ! j)"
  shows "length (filter P' (cs[i := c'])) + (if P (cs ! i) then 1 else 0)
       = length (filter P cs) + (if P' c' then 1 else 0)"
proof -
  have cs: "cs = take i cs @ cs ! i # drop (Suc i) cs"
    using assms(1) by (simp add: id_take_nth_drop)
  have upd: "cs[i := c'] = take i cs @ c' # drop (Suc i) cs"
    using assms(1) by (simp add: upd_conv_take_nth_drop)
  have t: "filter P' (take i cs) = filter P (take i cs)"
  proof (rule filter_cong [OF refl])
    fix x assume "x \<in> set (take i cs)"
    then obtain j where "j < length (take i cs)" "x = take i cs ! j"
      by (auto simp: in_set_conv_nth)
    with assms show "P' x = P x" by simp
  qed
  have d: "filter P' (drop (Suc i) cs) = filter P (drop (Suc i) cs)"
  proof (rule filter_cong [OF refl])
    fix x assume "x \<in> set (drop (Suc i) cs)"
    then obtain j where "j < length (drop (Suc i) cs)" "x = drop (Suc i) cs ! j"
      by (auto simp: in_set_conv_nth)
    with assms show "P' x = P x" by simp
  qed
  have "filter P cs = filter P (take i cs @ cs ! i # drop (Suc i) cs)"
    using arg_cong [OF cs, of "filter P"] .
  then have "length (filter P cs)
      = length (filter P (take i cs)) + (if P (cs ! i) then 1 else 0)
        + length (filter P (drop (Suc i) cs))"
    by simp
  moreover have "length (filter P' (cs[i := c']))
      = length (filter P (take i cs)) + (if P' c' then 1 else 0)
        + length (filter P (drop (Suc i) cs))"
    unfolding upd by (simp add: t d)
  ultimately show ?thesis by simp
qed

lemma list_all_update:
  "list_all P cs \<Longrightarrow> P c' \<Longrightarrow> list_all P (cs[i := c'])"
  unfolding list_all_iff using set_update_subset_insert [of cs i c'] by auto

lemma find_key_single:
  "filter (\<lambda>b. minuteBucket b = key) db = [b] \<Longrightarrow>
     find (\<lambda>b. minuteBucket b = key \<and> Q b) db = (if Q b then Some b else None)"
proof (induction db)
  case Nil
  then show ?case by simp
next
  case (Cons x xs)
  show ?case
  proof (cases "minuteBucket x = key")
    case True
    with Cons.prems have "x = b" and "filter (\<lambda>b. minuteBucket b = key) xs = []"
      by simp_all
    then show ?thesis using True
      by (auto simp: find_None_iff filter_empty_conv)
  next
    case False
    with Cons show ?thesis by simp
  qed
qed

lemma single_key: "filter (\<lambda>b. minuteBucket b = key) db = [b] \<Longrightarrow> minuteBucket b = key"
  by (metis (mono_tags, lifting) filter_eq_Cons_iff)

lemma advance_env:
  "advance rt c db = (c', db') \<Longrightarrow> inv_env c' = inv_env c \<and> inv_data c' = inv_data c"
  by (cases "inv_stage c")
    (auto simp: advance_def Let_def simp del: decimal.simps
       split: sum.splits if_splits option.splits prod.splits)

lemma advance_AtFindOne:
  assumes "inv_stage c = AtFindOne" and "advance rt c db = (c', db')"
  shows "db' = db \<and> ((\<exists>e. inv_stage c' = Thrown e)
           \<or> (\<exists>route. inv_stage c' = AtWrite route (findOne (bucket_key rt c) db)))"
  using assms
  by (auto simp: advance_def Let_def bucket_key_def split: sum.splits if_splits)

lemma advance_AtWrite:
  assumes "inv_stage c = AtWrite route found" and "advance rt c db = (c', db')"
  shows "(db' = db \<and> (\<exists>e. inv_stage c' = Thrown e))
    \<or> (\<exists>rcd result. found \<noteq> None \<and> inv_stage c' = AtRouteInc route (name rcd) result
          \<and> db' = updateOne (\<lambda>b. minuteBucket b = bucket_key rt c)
                     (\<lambda>b. b\<lparr>records := records b @ [rcd], recordCount := recordCount b + 1,
                             lastRecordTime := now (inv_env c)\<rparr>) db)
    \<or> (\<exists>rcd doc. found = None \<and> inv_stage c' = AtRouteInc route (name rcd) (Some doc)
          \<and> bucket_key rt c \<notin> set (map minuteBucket db)
          \<and> db' = db @ [doc] \<and> minuteBucket doc = bucket_key rt c
          \<and> records doc = [rcd] \<and> recordCount doc = 1
          \<and> routes doc = [] \<and> nameFrequency doc = [])"
proof (cases "cast_record rt (inv_data c) (now (inv_env c))
                (decimal (now (inv_env c)) @ ascii ''-'' @ random_suffix (inv_env c))")
  case None
  with assms show ?thesis by (auto simp: advance_def Let_def simp del: decimal.simps)
next
  case (Some rcd)
  show ?thesis
  proof (cases "write_fails (inv_env c)")
    case True
    with assms Some show ?thesis by (auto simp: advance_def Let_def simp del: decimal.simps)
  next
    case False
    show ?thesis
    proof (cases found)
      case (Some existing)
      with assms \<open>cast_record _ _ _ _ = Some rcd\<close> False show ?thesis
        by (auto simp: advance_def Let_def bucket_key_def findOneAndUpdate_def simp del: decimal.simps)
    next
      case None
      let ?doc = "bucket_info.extend (createMinuteBucket rt (now (inv_env c)))
                    (bucket.fields [rcd] 1 [] [] (now (inv_env c)) (now (inv_env c)))"
      have kd: "minuteBucket ?doc = bucket_key rt c"
        by (simp add: bucket_info.defs bucket_key_def)
      have f: "records ?doc = [rcd] \<and> recordCount ?doc = 1 \<and> routes ?doc = []
               \<and> nameFrequency ?doc = []"
        by (simp add: bucket_info.defs bucket.defs)
      show ?thesis
      proof (cases "bucket_key rt c \<in> set (map minuteBucket db)")
        case True
        with kd have "create ?doc db = Inl DuplicateKey" by (simp add: create_def)
        with assms \<open>cast_record _ _ _ _ = Some rcd\<close> False None show ?thesis
          by (auto simp: advance_def Let_def simp del: decimal.simps)
      next
        case nk: False
        with kd have "create ?doc db = Inr (?doc, db @ [?doc])" by (simp add: create_def)
        with assms \<open>cast_record _ _ _ _ = Some rcd\<close> False None
        have "inv_stage c' = AtRouteInc route (name rcd) (Some ?doc)" "db' = db @ [?doc]"
          by (auto simp: advance_def Let_def simp del: decimal.simps)
        with None nk kd f show ?thesis by blast
      qed
    qed
  qed
qed

lemma advance_AtRouteInc:
  assumes "inv_stage c = AtRouteInc route nm result" and "advance rt c db = (c', db')"
  shows "if route_inc_fails (inv_env c) then inv_stage c' = Returned result \<and> db' = db
     else inv_stage c' = AtRoutePush route nm result
     \<and> db' = updateOne (\<lambda>b. minuteBucket b = bucket_key rt c \<and> route \<in> set (map fst (routes b)))
                (\<lambda>b. b\<lparr>routes := inc_first route (routes b)\<rparr>) db"
  using assms by (auto simp: advance_def Let_def bucket_key_def)

lemma advance_AtRoutePush:
  assumes "inv_stage c = AtRoutePush route nm result" and "advance rt c db = (c', db')"
  shows "if route_push_fails (inv_env c) then inv_stage c' = Returned result \<and> db' = db
     else inv_stage c' = AtNameInc route nm result
     \<and> db' = updateOne (\<lambda>b. minuteBucket b = bucket_key rt c \<and> route \<notin> set (map fst (routes b)))
                (\<lambda>b. b\<lparr>routes := routes b @ [(route, 1)]\<rparr>) db"
  using assms by (auto simp: advance_def Let_def bucket_key_def)

lemma advance_AtNameInc:
  assumes "inv_stage c = AtNameInc route nm result" and "advance rt c db = (c', db')"
  shows "if name_inc_fails (inv_env c) then inv_stage c' = Returned result \<and> db' = db
     else inv_stage c' = AtNamePush route nm result
     \<and> db' = updateOne (\<lambda>b. minuteBucket b = bucket_key rt c \<and> nm \<in> set (map fst (nameFrequency b)))
                (\<lambda>b. b\<lparr>nameFrequency := inc_first nm (nameFrequency b)\<rparr>) db"
  using assms by (auto simp: advance_def Let_def bucket_key_def)

lemma advance_AtNamePush:
  assumes "inv_stage c = AtNamePush route nm result" and "advance rt c db = (c', db')"
  shows "inv_stage c' = Returned result
     \<and> (if name_push_fails (inv_env c) then db' = db
        else db' = updateOne (\<lambda>b. minuteBucket b = bucket_key rt c \<and> nm \<notin> set (map fst (nameFrequency b)))
                (\<lambda>b. b\<lparr>nameFrequency := nameFrequency b @ [(nm, 1)]\<rparr>) db)"
  using assms by (auto simp: advance_def Let_def bucket_key_def)

lemma advance_finished:
  assumes "finished c"
  shows "advance rt c db = (c, db)"
  using assms by (cases "inv_stage c") (simp_all add: finished_def advance_def Let_def)


lemma counter_stage_bucket:
  assumes w: "wrote c" and nf: "\<not> finished c" and adv: "advance rt c db = (c', db')"
    and b: "filter (\<lambda>b. minuteBucket b = key) db = [b]" and k: "bucket_key rt c = key"
  shows "wrote c' \<and> (\<exists>b'. filter (\<lambda>b. minuteBucket b = key) db' = [b']
            \<and> records b' = records b \<and> recordCount b' = recordCount b)"
proof -
  note kb = single_key [OF b]
  show ?thesis
  proof (cases "inv_stage c")
    case AtFindOne
    with w show ?thesis by (simp add: wrote_def)
  next
    case (AtWrite route found)
    with w show ?thesis by (simp add: wrote_def)
  next
    case (AtRouteInc route nm result)
    from advance_AtRouteInc [OF this adv] b k kb
      updateOne_single [OF b, where upd = "\<lambda>b. b\<lparr>routes := inc_first route (routes b)\<rparr>"
        and Q = "\<lambda>b. route \<in> set (map fst (routes b))"]
    show ?thesis by (auto simp: wrote_def split: if_splits)
  next
    case (AtRoutePush route nm result)
    from advance_AtRoutePush [OF this adv] b k kb
      updateOne_single [OF b, where upd = "\<lambda>b. b\<lparr>routes := routes b @ [(route, 1)]\<rparr>"
        and Q = "\<lambda>b. route \<notin> set (map fst (routes b))"]
    show ?thesis by (auto simp: wrote_def split: if_splits)
  next
    case (AtNameInc route nm result)
    from advance_AtNameInc [OF this adv] b k kb
      updateOne_single [OF b, where upd = "\<lambda>b. b\<lparr>nameFrequency := inc_first nm (nameFrequency b)\<rparr>"
        and Q = "\<lambda>b. nm \<in> set (map fst (nameFrequency b))"]
    show ?thesis by (auto simp: wrote_def split: if_splits)
  next
    case (AtNamePush route nm result)
    from advance_AtNamePush [OF this adv] b k kb
      updateOne_single [OF b, where upd = "\<lambda>b. b\<lparr>nameFrequency := nameFrequency b @ [(nm, 1)]\<rparr>"
        and Q = "\<lambda>b. nm \<notin> set (map fst (nameFrequency b))"]
    show ?thesis by (auto simp: wrote_def split: if_splits)
  next
    case (Returned result)
    with nf show ?thesis by (simp add: finished_def)
  next
    case (Thrown e)
    with nf show ?thesis by (simp add: finished_def)
  qed
qed

lemma records_inv_step:
  assumes inv: "records_inv key cs db" and i: "i < length cs"
    and k: "bucket_key rt (cs ! i) = key"
    and adv: "advance rt (cs ! i) db = (c', db')"
  shows "records_inv key (cs[i := c']) db'"
proof -
  let ?c = "cs ! i"
  let ?flt = "filter (\<lambda>b. minuteBucket b = key)"
  have cnt: "length (filter wrote (cs[i := c'])) + (if wrote ?c then 1 else 0)
           = length (filter wrote cs) + (if wrote c' then 1 else 0)"
    using count_update [OF i, of wrote wrote c'] by simp
  have mem: "?c \<in> set cs" using i by simp
  consider (fin) "finished ?c" | (counter) "wrote ?c" and "\<not> finished ?c"
    | (lookup) "inv_stage ?c = AtFindOne"
    | (writing) route found where "inv_stage ?c = AtWrite route found"
    by (cases "inv_stage ?c") (auto simp: finished_def wrote_def)
  then show ?thesis
  proof cases
    case fin
    from advance_finished [OF this, of rt db] adv have "c' = ?c" "db' = db" by simp_all
    with inv show ?thesis by simp
  next
    case counter
    show ?thesis
    proof (cases "?flt db")
      case Nil
      with inv mem counter(1) show ?thesis
        by (auto simp: records_inv_def list_all_iff)
    next
      case (Cons b bs)
      with inv have bs: "?flt db = [b]"
        and b: "recordCount b = length (filter wrote cs)" "length (records b) = length (filter wrote cs)"
        by (auto simp: records_inv_def split: list.splits)
      from counter_stage_bucket [OF counter adv bs k] obtain b' where
        "wrote c'" "?flt db' = [b']" "records b' = records b" "recordCount b' = recordCount b"
        by blast
      with b cnt counter(1) show ?thesis by (simp add: records_inv_def)
    qed
  next
    case lookup
    from advance_AtFindOne [OF lookup adv] k have db': "db' = db"
      and st: "(\<exists>e. inv_stage c' = Thrown e) \<or> (\<exists>route. inv_stage c' = AtWrite route (findOne key db))"
      by auto
    from st have nw: "\<not> wrote c'" by (auto simp: wrote_def)
    from lookup have nwc: "\<not> wrote ?c" by (simp add: wrote_def)
    show ?thesis
    proof (cases "?flt db")
      case Nil
      then have "findOne key db = None" by (simp add: findOne_def find_as_filter)
      with st have "\<not> saw_bucket c'" by (auto simp: saw_bucket_def)
      with nw inv Nil show ?thesis
        unfolding db' by (simp add: records_inv_def list_all_update)
    next
      case (Cons b bs)
      with inv cnt nw nwc show ?thesis
        unfolding db' by (auto simp: records_inv_def split: list.splits)
    qed
  next
    case writing
    from writing have nwc: "\<not> wrote ?c" by (simp add: wrote_def)
    from advance_AtWrite [OF writing adv]
    consider (thrown) "db' = db" and "\<exists>e. inv_stage c' = Thrown e"
      | (append) rcd result where "found \<noteq> None"
          and "inv_stage c' = AtRouteInc route (name rcd) result"
          and "db' = updateOne (\<lambda>b. minuteBucket b = key)
                     (\<lambda>b. b\<lparr>records := records b @ [rcd], recordCount := recordCount b + 1,
                             lastRecordTime := now (inv_env ?c)\<rparr>) db"
      | (created) rcd doc where "found = None"
          and "inv_stage c' = AtRouteInc route (name rcd) (Some doc)"
          and "key \<notin> set (map minuteBucket db)" and "db' = db @ [doc]"
          and "minuteBucket doc = key" and "records doc = [rcd]" and "recordCount doc = 1"
      unfolding k by blast
    then show ?thesis
    proof cases
      case thrown
      then have nw: "\<not> wrote c'" "\<not> saw_bucket c'" by (auto simp: wrote_def saw_bucket_def)
      show ?thesis
      proof (cases "?flt db")
        case Nil
        with nw inv show ?thesis
          unfolding thrown(1) by (simp add: records_inv_def list_all_update)
      next
        case (Cons b bs)
        with inv cnt nw nwc show ?thesis
          unfolding thrown(1) by (auto simp: records_inv_def split: list.splits)
      qed
    next
      case append
      from append(2) have wc: "wrote c'" by (simp add: wrote_def)
      from append(1) writing have saw: "saw_bucket ?c" by (auto simp: saw_bucket_def)
      show ?thesis
      proof (cases "?flt db")
        case Nil
        with inv mem saw show ?thesis by (auto simp: records_inv_def list_all_iff)
      next
        case (Cons b bs)
        with inv have bs: "?flt db = [b]"
          and b: "recordCount b = length (filter wrote cs)" "length (records b) = length (filter wrote cs)"
          by (auto simp: records_inv_def split: list.splits)
        let ?upd = "\<lambda>b. b\<lparr>records := records b @ [rcd], recordCount := recordCount b + 1,
                             lastRecordTime := now (inv_env ?c)\<rparr>"
        have "minuteBucket (?upd b) = key" using single_key [OF bs] by simp
        from updateOne_key_single [where upd = ?upd, OF bs this]
        have "?flt db' = [?upd b]" unfolding append(3) .
        with b cnt wc nwc show ?thesis by (simp add: records_inv_def)
      qed
    next
      case created
      from created(2) have wc: "wrote c'" by (simp add: wrote_def)
      from created(3) have e: "?flt db = []" by (auto simp: filter_empty_conv)
      with inv have "list_all (\<lambda>c. \<not> wrote c) cs" by (simp add: records_inv_def list_all_iff)
      then have "filter wrote cs = []" by (simp add: filter_empty_conv list_all_iff)
      with cnt wc nwc have "length (filter wrote (cs[i := c'])) = 1" by simp
      moreover have "?flt db' = [doc]" using e created(4,5) by simp
      ultimately show ?thesis using created(6,7) by (simp add: records_inv_def)
    qed
  qed
qed


lemma counted_unchanged:
  assumes "i < length cs" and "P' c' = P (cs ! i)"
    and "\<And>j. j < length cs \<Longrightarrow> j \<noteq> i \<Longrightarrow> P' (cs ! j) = P (cs ! j)"
  shows "length (filter P' (cs[i := c'])) = length (filter P cs)"
  using count_update [OF assms(1), of P' P c'] assms(2,3) by simp

lemma counted_incremented:
  assumes "i < length cs" and "\<not> P (cs ! i)" and "P' c'"
    and "\<And>j. j < length cs \<Longrightarrow> j \<noteq> i \<Longrightarrow> P' (cs ! j) = P (cs ! j)"
  shows "length (filter P' (cs[i := c'])) = length (filter P cs) + 1"
  using count_update [OF assms(1), of P' P c'] assms(2,3,4) by simp

lemma route_counted_cong:
  "set (map fst (routes b')) = set (map fst (routes b)) \<Longrightarrow> route_counted b' c = route_counted b c"
  by (simp add: route_counted_def split: stage.splits)

lemma name_counted_cong:
  "set (map fst (nameFrequency b')) = set (map fst (nameFrequency b)) \<Longrightarrow>
     name_counted b' c = name_counted b c"
  by (simp add: name_counted_def split: stage.splits)

lemma route_counted_wrote: "route_counted b c \<Longrightarrow> wrote c"
  by (simp add: route_counted_def wrote_def split: stage.splits)

lemma name_counted_wrote: "name_counted b c \<Longrightarrow> wrote c"
  by (simp add: name_counted_def wrote_def split: stage.splits)

lemma clash_freeD:
  "clash_free rt cs db \<Longrightarrow> i < length cs \<Longrightarrow> j < length cs \<Longrightarrow> i \<noteq> j \<Longrightarrow>
     \<not> clash rt db (cs ! i) (cs ! j)"
  unfolding clash_free_def list_all_iff by (metis atLeastLessThan_iff set_upt zero_le)

lemma pending_route_single:
  assumes "filter (\<lambda>b. minuteBucket b = key) db = [b]" and "bucket_key rt c = key"
  shows "pending_route rt db c =
     (case inv_stage c of
        AtRoutePush route nm result \<Rightarrow>
          if route \<in> set (map fst (routes b)) then None else Some (key, route)
      | _ \<Rightarrow> None)"
  using assms(2)
  by (simp add: pending_route_def find_key_single [OF assms(1)] split: stage.splits)

lemma pending_name_single:
  assumes "filter (\<lambda>b. minuteBucket b = key) db = [b]" and "bucket_key rt c = key"
  shows "pending_name rt db c =
     (case inv_stage c of
        AtNamePush route nm result \<Rightarrow>
          if nm \<in> set (map fst (nameFrequency b)) then None else Some (key, nm)
      | _ \<Rightarrow> None)"
  using assms(2)
  by (simp add: pending_name_def find_key_single [OF assms(1)] split: stage.splits)

lemma route_push_others:
  assumes "filter (\<lambda>b. minuteBucket b = key) db = [b]" and "bucket_key rt c = key"
    and "pending_route rt db c \<noteq> Some (key, route)"
  shows "route_counted (b\<lparr>routes := routes b @ [(route, 1)]\<rparr>) c = route_counted b c"
  using assms(3) unfolding pending_route_single [OF assms(1,2)]
  by (auto simp: route_counted_def split: stage.splits if_splits)

lemma name_push_others:
  assumes "filter (\<lambda>b. minuteBucket b = key) db = [b]" and "bucket_key rt c = key"
    and "pending_name rt db c \<noteq> Some (key, nm)"
  shows "name_counted (b\<lparr>nameFrequency := nameFrequency b @ [(nm, 1)]\<rparr>) c = name_counted b c"
  using assms(3) unfolding pending_name_single [OF assms(1,2)]
  by (auto simp: name_counted_def split: stage.splits if_splits)

lemma counters_invI:
  "filter (\<lambda>b. minuteBucket b = key) db = [b] \<Longrightarrow>
   sum_list (map snd (routes b)) = length (filter (route_counted b) cs) \<Longrightarrow>
   sum_list (map snd (nameFrequency b)) = length (filter (name_counted b) cs) \<Longrightarrow>
   counters_inv key cs db"
  by (simp add: counters_inv_def)


lemma counters_inv_step:
  assumes rinv: "records_inv key cs db" and cinv: "counters_inv key cs db"
    and i: "i < length cs"
    and keys: "\<forall>c\<in>set cs. bucket_key rt c = key \<and> counters_reachable (inv_env c)"
    and cf: "clash_free rt cs db"
    and adv: "advance rt (cs ! i) db = (c', db')"
  shows "counters_inv key (cs[i := c']) db'"
proof -
  let ?c = "cs ! i"
  let ?flt = "filter (\<lambda>b. minuteBucket b = key)"
  have mem: "?c \<in> set cs" using i by simp
  with keys have k: "bucket_key rt ?c = key" and cr: "counters_reachable (inv_env ?c)"
    by simp_all
  have kj: "\<And>j. j < length cs \<Longrightarrow> bucket_key rt (cs ! j) = key"
    using keys by simp
  show ?thesis
  proof (cases "?flt db")
    case Nil
    show ?thesis
    proof (cases "?flt db'")
      case (Cons doc ds)
      from Nil rinv have nw: "\<forall>c\<in>set cs. \<not> wrote c \<and> \<not> saw_bucket c"
        by (simp add: records_inv_def list_all_iff)
      with mem have nwc: "\<not> wrote ?c" "\<not> saw_bucket ?c" by simp_all
      then consider (lookup) "inv_stage ?c = AtFindOne"
        | (writing) route found where "inv_stage ?c = AtWrite route found"
        | (thrown) "finished ?c"
        by (cases "inv_stage ?c") (auto simp: wrote_def finished_def)
      then show ?thesis
      proof cases
        case lookup
        from advance_AtFindOne [OF lookup adv] Nil Cons show ?thesis by simp
      next
        case thrown
        from advance_finished [OF this, of rt db] adv Nil Cons show ?thesis by simp
      next
        case writing
        from nwc(2) writing have "found = None" by (cases found) (simp_all add: saw_bucket_def)
        with advance_AtWrite [OF writing adv] Nil Cons k
        have "\<exists>nm d. inv_stage c' = AtRouteInc route nm (Some d)
          \<and> db' = db @ [d] \<and> minuteBucket d = key \<and> routes d = [] \<and> nameFrequency d = []"
          by auto
        then obtain nm d where st: "inv_stage c' = AtRouteInc route nm (Some d)"
          and db': "db' = db @ [d]" and d: "minuteBucket d = key" "routes d = []" "nameFrequency d = []"
          by blast
        from db' d(1) Nil have f: "?flt db' = [d]" by simp
        have "\<forall>c\<in>set (cs[i := c']). \<not> route_counted d c \<and> \<not> name_counted d c"
        proof
          fix c assume "c \<in> set (cs[i := c'])"
          with set_update_subset_insert [of cs i c'] have "c = c' \<or> c \<in> set cs" by auto
          then show "\<not> route_counted d c \<and> \<not> name_counted d c"
          proof
            assume "c = c'"
            with st show ?thesis by (simp add: route_counted_def name_counted_def)
          next
            assume "c \<in> set cs"
            with nw have "\<not> wrote c" by simp
            then show ?thesis using route_counted_wrote name_counted_wrote by blast
          qed
        qed
        then have "filter (route_counted d) (cs[i := c']) = []"
          "filter (name_counted d) (cs[i := c']) = []"
          by (simp_all add: filter_empty_conv)
        with d show ?thesis by (intro counters_invI [OF f]) simp_all
      qed
    qed (simp add: counters_inv_def)
  next
    case (Cons b bs')
    with rinv have bs: "?flt db = [b]"
      by (auto simp: records_inv_def split: list.splits)
    note kb = single_key [OF bs]
    from cinv bs have R: "sum_list (map snd (routes b)) = length (filter (route_counted b) cs)"
      and N: "sum_list (map snd (nameFrequency b)) = length (filter (name_counted b) cs)"
      by (simp_all add: counters_inv_def)
    have same: "counters_inv key (cs[i := c']) db'"
      if f: "?flt db' = [b']" and rs: "routes b' = routes b" and ns: "nameFrequency b' = nameFrequency b"
        and rc: "route_counted b c' = route_counted b ?c" and nc: "name_counted b c' = name_counted b ?c"
      for b'
    proof (rule counters_invI [OF f])
      have "length (filter (route_counted b') (cs[i := c'])) = length (filter (route_counted b) cs)"
        by (rule counted_unchanged [OF i]) (simp_all add: route_counted_cong [of b' b] rs rc)
      with R rs show "sum_list (map snd (routes b')) = length (filter (route_counted b') (cs[i := c']))"
        by simp
      have "length (filter (name_counted b') (cs[i := c'])) = length (filter (name_counted b) cs)"
        by (rule counted_unchanged [OF i]) (simp_all add: name_counted_cong [of b' b] ns nc)
      with N ns show "sum_list (map snd (nameFrequency b')) = length (filter (name_counted b') (cs[i := c']))"
        by simp
    qed
    show ?thesis
    proof (cases "inv_stage ?c")
      case AtFindOne
      from advance_AtFindOne [OF this adv] have "db' = db"
        and "\<not> route_counted b c'" "\<not> name_counted b c'"
        by (auto simp: route_counted_def name_counted_def)
      with bs AtFindOne show ?thesis
        by (intro same [of b]) (simp_all add: route_counted_def name_counted_def)
    next
      case (Returned result)
      then have "finished ?c" by (simp add: finished_def)
      from advance_finished [OF this, of rt db] adv cinv show ?thesis by simp
    next
      case (Thrown e)
      then have "finished ?c" by (simp add: finished_def)
      from advance_finished [OF this, of rt db] adv cinv show ?thesis by simp
    next
      case (AtWrite route found)
      have u: "\<not> route_counted b ?c" "\<not> name_counted b ?c"
        using AtWrite by (simp_all add: route_counted_def name_counted_def)
      have km: "key \<in> set (map minuteBucket db)"
        using bs by (metis (mono_tags, lifting) filter_empty_conv list.distinct(1) list.set_map image_eqI)
      from advance_AtWrite [OF AtWrite adv] km
      consider (thrown) "db' = db" and "\<exists>e. inv_stage c' = Thrown e"
        | (append) rcd result where "inv_stage c' = AtRouteInc route (name rcd) result"
          and "db' = updateOne (\<lambda>b. minuteBucket b = key)
                     (\<lambda>b. b\<lparr>records := records b @ [rcd], recordCount := recordCount b + 1,
                             lastRecordTime := now (inv_env ?c)\<rparr>) db"
        unfolding k by blast
      then show ?thesis
      proof cases
        case thrown
        then have "\<not> route_counted b c'" "\<not> name_counted b c'"
          by (auto simp: route_counted_def name_counted_def)
        with thrown(1) bs u show ?thesis by (intro same [of b]) simp_all
      next
        case append
        let ?upd = "\<lambda>b. b\<lparr>records := records b @ [rcd], recordCount := recordCount b + 1,
                             lastRecordTime := now (inv_env ?c)\<rparr>"
        have "minuteBucket (?upd b) = key" using kb by simp
        from updateOne_key_single [where upd = ?upd, OF bs this]
        have f: "?flt db' = [?upd b]" unfolding append(2) .
        from append(1) have "\<not> route_counted b c'" "\<not> name_counted b c'"
          by (simp_all add: route_counted_def name_counted_def)
        with u show ?thesis by (intro same [OF f]) simp_all
      qed
    next
      case (AtRouteInc route nm result)
      from cr have "\<not> route_inc_fails (inv_env ?c)" by (simp add: counters_reachable_def)
      with advance_AtRouteInc [OF AtRouteInc adv] k
      have st: "inv_stage c' = AtRoutePush route nm result"
        and db': "db' = updateOne (\<lambda>b. minuteBucket b = key \<and> route \<in> set (map fst (routes b)))
                (\<lambda>b. b\<lparr>routes := inc_first route (routes b)\<rparr>) db"
        by simp_all
      have f: "?flt db' = [if route \<in> set (map fst (routes b))
                           then b\<lparr>routes := inc_first route (routes b)\<rparr> else b]"
        unfolding db' by (rule updateOne_single [OF bs]) (simp add: kb)
      show ?thesis
      proof (cases "route \<in> set (map fst (routes b))")
        case False
        with f have f': "?flt db' = [b]" by simp
        from False st AtRouteInc show ?thesis
          by (intro same [OF f']) (simp_all add: route_counted_def name_counted_def)
      next
        case True
        let ?b' = "b\<lparr>routes := inc_first route (routes b)\<rparr>"
        from True f have f': "?flt db' = [?b']" by simp
        have ke: "set (map fst (routes ?b')) = set (map fst (routes b))"
          by (simp add: keys_inc_first_set)
        show ?thesis
        proof (rule counters_invI [OF f'])
          have "route_counted ?b' = route_counted b"
            by (rule ext, rule route_counted_cong [OF ke])
          moreover have "length (filter (route_counted b) (cs[i := c'])) = length (filter (route_counted b) cs) + 1"
            by (rule counted_incremented [OF i])
              (use True st AtRouteInc in \<open>simp_all add: route_counted_def\<close>)
          ultimately have "length (filter (route_counted ?b') (cs[i := c'])) = length (filter (route_counted b) cs) + 1"
            by simp
          with R True show "sum_list (map snd (routes ?b')) = length (filter (route_counted ?b') (cs[i := c']))"
            by (simp add: sum_inc_first)
          have "name_counted ?b' = name_counted b"
            by (rule ext, rule name_counted_cong) simp
          moreover have "length (filter (name_counted b) (cs[i := c'])) = length (filter (name_counted b) cs)"
            by (rule counted_unchanged [OF i])
              (use st AtRouteInc in \<open>simp_all add: name_counted_def\<close>)
          ultimately have "length (filter (name_counted ?b') (cs[i := c'])) = length (filter (name_counted b) cs)"
            by simp
          with N show "sum_list (map snd (nameFrequency ?b')) = length (filter (name_counted ?b') (cs[i := c']))"
            by simp
        qed
      qed
    next
      case (AtRoutePush route nm result)
      from cr have "\<not> route_push_fails (inv_env ?c)" by (simp add: counters_reachable_def)
      with advance_AtRoutePush [OF AtRoutePush adv] k
      have st: "inv_stage c' = AtNameInc route nm result"
        and db': "db' = updateOne (\<lambda>b. minuteBucket b = key \<and> route \<notin> set (map fst (routes b)))
                (\<lambda>b. b\<lparr>routes := routes b @ [(route, 1)]\<rparr>) db"
        by simp_all
      have f: "?flt db' = [if route \<notin> set (map fst (routes b))
                           then b\<lparr>routes := routes b @ [(route, 1)]\<rparr> else b]"
        unfolding db' by (rule updateOne_single [OF bs]) (simp add: kb)
      show ?thesis
      proof (cases "route \<in> set (map fst (routes b))")
        case True
        with f have f': "?flt db' = [b]" by simp
        from True st AtRoutePush show ?thesis
          by (intro same [OF f']) (simp_all add: route_counted_def name_counted_def)
      next
        case False
        let ?b' = "b\<lparr>routes := routes b @ [(route, 1)]\<rparr>"
        from False f have f': "?flt db' = [?b']" by simp
        from False AtRoutePush have pi: "pending_route rt db ?c = Some (key, route)"
          by (simp add: pending_route_single [OF bs k])
        have others: "route_counted ?b' (cs ! j) = route_counted b (cs ! j)"
          if j: "j < length cs" "j \<noteq> i" for j
        proof (rule route_push_others [OF bs kj [OF j(1)]])
          from clash_freeD [OF cf i j(1)] j(2) pi
          show "pending_route rt db (cs ! j) \<noteq> Some (key, route)"
            by (auto simp: clash_def)
        qed
        show ?thesis
        proof (rule counters_invI [OF f'])
          have "length (filter (route_counted ?b') (cs[i := c'])) = length (filter (route_counted b) cs) + 1"
            by (rule counted_incremented [OF i])
              (use False st AtRoutePush others in \<open>simp_all add: route_counted_def\<close>)
          with R show "sum_list (map snd (routes ?b')) = length (filter (route_counted ?b') (cs[i := c']))"
            by simp
          have "name_counted ?b' = name_counted b"
            by (rule ext, rule name_counted_cong) simp
          moreover have "length (filter (name_counted b) (cs[i := c'])) = length (filter (name_counted b) cs)"
            by (rule counted_unchanged [OF i])
              (use st AtRoutePush in \<open>simp_all add: name_counted_def\<close>)
          ultimately have "length (filter (name_counted ?b') (cs[i := c'])) = length (filter (name_counted b) cs)"
            by simp
          with N show "sum_list (map snd (nameFrequency ?b')) = length (filter (name_counted ?b') (cs[i := c']))"
            by simp
        qed
      qed
    next
      case (AtNameInc route nm result)
      from cr have "\<not> name_inc_fails (inv_env ?c)" by (simp add: counters_reachable_def)
      with advance_AtNameInc [OF AtNameInc adv] k
      have st: "inv_stage c' = AtNamePush route nm result"
        and db': "db' = updateOne (\<lambda>b. minuteBucket b = key \<and> nm \<in> set (map fst (nameFrequency b)))
                (\<lambda>b. b\<lparr>nameFrequency := inc_first nm (nameFrequency b)\<rparr>) db"
        by simp_all
      have f: "?flt db' = [if nm \<in> set (map fst (nameFrequency b))
                           then b\<lparr>nameFrequency := inc_first nm (nameFrequency b)\<rparr> else b]"
        unfolding db' by (rule updateOne_single [OF bs]) (simp add: kb)
      show ?thesis
      proof (cases "nm \<in> set (map fst (nameFrequency b))")
        case False
        with f have f': "?flt db' = [b]" by simp
        from False st AtNameInc show ?thesis
          by (intro same [OF f']) (simp_all add: route_counted_def name_counted_def)
      next
        case True
        let ?b' = "b\<lparr>nameFrequency := inc_first nm (nameFrequency b)\<rparr>"
        from True f have f': "?flt db' = [?b']" by simp
        have ke: "set (map fst (nameFrequency ?b')) = set (map fst (nameFrequency b))"
          by (simp add: keys_inc_first_set)
        show ?thesis
        proof (rule counters_invI [OF f'])
          have "name_counted ?b' = name_counted b"
            by (rule ext, rule name_counted_cong [OF ke])
          moreover have "length (filter (name_counted b) (cs[i := c'])) = length (filter (name_counted b) cs) + 1"
            by (rule counted_incremented [OF i])
              (use True st AtNameInc in \<open>simp_all add: name_counted_def\<close>)
          ultimately have "length (filter (name_counted ?b') (cs[i := c'])) = length (filter (name_counted b) cs) + 1"
            by simp
          with N True show "sum_list (map snd (nameFrequency ?b')) = length (filter (name_counted ?b') (cs[i := c']))"
            by (simp add: sum_inc_first)
          have "route_counted ?b' = route_counted b"
            by (rule ext, rule route_counted_cong) simp
          moreover have "length (filter (route_counted b) (cs[i := c'])) = length (filter (route_counted b) cs)"
            by (rule counted_unchanged [OF i])
              (use st AtNameInc in \<open>simp_all add: route_counted_def\<close>)
          ultimately have "length (filter (route_counted ?b') (cs[i := c'])) = length (filter (route_counted b) cs)"
            by simp
          with R show "sum_list (map snd (routes ?b')) = length (filter (route_counted ?b') (cs[i := c']))"
            by simp
        qed
      qed
    next
      case (AtNamePush route nm result)
      from cr have "\<not> name_push_fails (inv_env ?c)" by (simp add: counters_reachable_def)
      with advance_AtNamePush [OF AtNamePush adv] k
      have st: "inv_stage c' = Returned result"
        and db': "db' = updateOne (\<lambda>b. minuteBucket b = key \<and> nm \<notin> set (map fst (nameFrequency b)))
                (\<lambda>b. b\<lparr>nameFrequency := nameFrequency b @ [(nm, 1)]\<rparr>) db"
        by simp_all
      have f: "?flt db' = [if nm \<notin> set (map fst (nameFrequency b))
                           then b\<lparr>nameFrequency := nameFrequency b @ [(nm, 1)]\<rparr> else b]"
        unfolding db' by (rule updateOne_single [OF bs]) (simp add: kb)
      show ?thesis
      proof (cases "nm \<in> set (map fst (nameFrequency b))")
        case True
        with f have f': "?flt db' = [b]" by simp
        from True st AtNamePush show ?thesis
          by (intro same [OF f']) (simp_all add: route_counted_def name_counted_def)
      next
        case False
        let ?b' = "b\<lparr>nameFrequency := nameFrequency b @ [(nm, 1)]\<rparr>"
        from False f have f': "?flt db' = [?b']" by simp
        from False AtNamePush have pi: "pending_name rt db ?c = Some (key, nm)"
          by (simp add: pending_name_single [OF bs k])
        have others: "name_counted ?b' (cs ! j) = name_counted b (cs ! j)"
          if j: "j < length cs" "j \<noteq> i" for j
        proof (rule name_push_others [OF bs kj [OF j(1)]])
          from clash_freeD [OF cf i j(1)] j(2) pi
          show "pending_name rt db (cs ! j) \<noteq> Some (key, nm)"
            by (auto simp: clash_def)
        qed
        show ?thesis
        proof (rule counters_invI [OF f'])
          have "length (filter (name_counted ?b') (cs[i := c'])) = length (filter (name_counted b) cs) + 1"
            by (rule counted_incremented [OF i])
              (use False st AtNamePush others in \<open>simp_all add: name_counted_def\<close>)
          with N show "sum_list (map snd (nameFrequency ?b')) = length (filter (name_counted ?b') (cs[i := c']))"
            by simp
          have "route_counted ?b' = route_counted b"
            by (rule ext, rule route_counted_cong) simp
          moreover have "length (filter (route_counted b) (cs[i := c'])) = length (filter (route_counted b) cs)"
            by (rule counted_unchanged [OF i])
              (use st AtNamePush in \<open>simp_all add: route_counted_def\<close>)
          ultimately have "length (filter (route_counted ?b') (cs[i := c'])) = length (filter (route_counted b) cs)"
            by simp
          with R show "sum_list (map snd (routes ?b')) = length (filter (route_counted ?b') (cs[i := c']))"
            by simp
        qed
      qed
    qed
  qed
qed


lemma advance_targets:
  assumes "\<forall>c\<in>set cs. bucket_key rt c = key \<and> (reach \<longrightarrow> counters_reachable (inv_env c))"
    and "i < length cs" and "advance rt (cs ! i) db = (c', db')"
  shows "\<forall>c\<in>set (cs[i := c']). bucket_key rt c = key \<and> (reach \<longrightarrow> counters_reachable (inv_env c))"
proof
  fix c assume "c \<in> set (cs[i := c'])"
  with set_update_subset_insert [of cs i c'] have "c = c' \<or> c \<in> set cs" by auto
  moreover from advance_env [OF assms(3)] assms(1,2)
  have "bucket_key rt c' = key \<and> (reach \<longrightarrow> counters_reachable (inv_env c'))"
    by (simp add: bucket_key_def)
  ultimately show "bucket_key rt c = key \<and> (reach \<longrightarrow> counters_reachable (inv_env c))"
    using assms(1) by blast
qed

lemma run_invariants:
  assumes "records_inv key cs db"
    and "reach \<longrightarrow> counters_inv key cs db \<and> race_free rt sched cs db"
    and "\<forall>c\<in>set cs. bucket_key rt c = key \<and> (reach \<longrightarrow> counters_reachable (inv_env c))"
    and "run rt sched cs db = (cs', db')"
  shows "records_inv key cs' db' \<and> (reach \<longrightarrow> counters_inv key cs' db')"
  using assms
proof (induction sched arbitrary: cs db)
  case Nil
  then show ?case by simp
next
  case (Cons i sched)
  show ?case
  proof (cases "i < length cs")
    case False
    with Cons.prems have "run rt sched cs db = (cs', db')"
      and "reach \<longrightarrow> counters_inv key cs db \<and> race_free rt sched cs db"
      by simp_all
    from Cons.IH [OF Cons.prems(1) this(2) Cons.prems(3) this(1)] show ?thesis .
  next
    case True
    obtain c1 db1 where adv: "advance rt (cs ! i) db = (c1, db1)"
      by (cases "advance rt (cs ! i) db")
    with True Cons.prems(4) have run1: "run rt sched (cs[i := c1]) db1 = (cs', db')"
      by simp
    from True Cons.prems(3) have k: "bucket_key rt (cs ! i) = key" by simp
    have r1: "records_inv key (cs[i := c1]) db1"
      by (rule records_inv_step [OF Cons.prems(1) True k adv])
    have t1: "\<forall>c\<in>set (cs[i := c1]). bucket_key rt c = key \<and> (reach \<longrightarrow> counters_reachable (inv_env c))"
      by (rule advance_targets [OF Cons.prems(3) True adv])
    have c1: "reach \<longrightarrow> counters_inv key (cs[i := c1]) db1 \<and> race_free rt sched (cs[i := c1]) db1"
    proof
      assume reach
      with Cons.prems(2,3) True adv
      have ci: "counters_inv key cs db" and cf: "clash_free rt cs db"
        and rf: "race_free rt sched (cs[i := c1]) db1"
        and ks: "\<forall>c\<in>set cs. bucket_key rt c = key \<and> counters_reachable (inv_env c)"
        by simp_all
      from counters_inv_step [OF Cons.prems(1) ci True ks cf adv] rf
      show "counters_inv key (cs[i := c1]) db1 \<and> race_free rt sched (cs[i := c1]) db1" by simp
    qed
    from Cons.IH [OF r1 c1 t1 run1] show ?thesis .
  qed
qed

lemma finished_wrote: "finished c \<Longrightarrow> wrote c = succeeded c"
  by (cases "inv_stage c") (simp_all add: finished_def wrote_def succeeded_def)

lemma finished_route_counted: "finished c \<Longrightarrow> route_counted b c = succeeded c"
  by (cases "inv_stage c") (simp_all add: finished_def route_counted_def succeeded_def)

lemma finished_name_counted: "finished c \<Longrightarrow> name_counted b c = succeeded c"
  by (cases "inv_stage c") (simp_all add: finished_def name_counted_def succeeded_def)

lemma invoked_invariants:
  assumes "key \<notin> set (map minuteBucket db)"
  shows "records_inv key (map (\<lambda>(env, messageData). invoke env messageData) calls) db"
    and "counters_inv key (map (\<lambda>(env, messageData). invoke env messageData) calls) db"
proof -
  from assms have e: "filter (\<lambda>b. minuteBucket b = key) db = []"
    by (auto simp: filter_empty_conv)
  then show "records_inv key (map (\<lambda>(env, messageData). invoke env messageData) calls) db"
    by (auto simp: records_inv_def list_all_iff invoke_def wrote_def saw_bucket_def)
  from e show "counters_inv key (map (\<lambda>(env, messageData). invoke env messageData) calls) db"
    by (simp add: counters_inv_def)
qed

text \<open>
  A call that runs alone takes six steps, and they amount to \<^verbatim>\<open>addRecord\<close> as one function.
\<close>

lemma addRecord_as_steps:
  "\<exists>c. run rt [0, 0, 0, 0, 0, 0] [invoke env messageData] db = ([c], snd (addRecord rt env messageData db))
       \<and> outcome c = Some (fst (addRecord rt env messageData db))"
  by (auto simp: advance_def Let_def invoke_def route_of_def addRecord_def write_record_def
      updateAggregatedData_def findOneAndUpdate_def outcome_def
      simp del: decimal.simps
      split: sum.splits option.splits prod.splits)

text \<open>
  Two appends of the same route and name whose operations alternate: the second call looks
  the bucket up after the first has created it, and each call's increment-then-push of a
  counter ends before the other call's push begins.
\<close>

lemmas example_eval =
  advance_def Let_def invoke_def route_of_def lookup_def cast_record_def
  createMinuteBucket_def findOne_def create_def findOneAndUpdate_def
  example_calls_def example_runtime_def example_env_def example_castString_def
  example_fields_def bucket_info.defs bucket.defs ascii_def chr_def
  finished_def succeeded_def

lemma example_run_finished:
  "list_all finished (fst (run (example_runtime sha256 keystream) [0, 0, 1, 0, 1, 0, 1, 0, 1, 0, 1, 1]
      (map (\<lambda>(env, messageData). invoke env messageData) example_calls) []))"
  by (simp add: example_eval del: decimal.simps)

lemma example_run_succeeded:
  "length (filter succeeded (fst (run (example_runtime sha256 keystream) [0, 0, 1, 0, 1, 0, 1, 0, 1, 0, 1, 1]
      (map (\<lambda>(env, messageData). invoke env messageData) example_calls) []))) = 2"
  by (simp add: example_eval del: decimal.simps)

lemma example_run_race_free:
  "race_free (example_runtime sha256 keystream) [0, 0, 1, 0, 1, 0, 1, 0, 1, 0, 1, 1]
      (map (\<lambda>(env, messageData). invoke env messageData) example_calls) []"
  by (simp add: example_eval clash_free_def clash_def pending_route_def pending_name_def
      bucket_key_def del: decimal.simps)


text \<open>
  C4, as amended. Any number of \<^verbatim>\<open>addRecord\<close> calls that all target one minute are started
  on a collection without a bucket for that minute, and the database performs their
  operations in any interleaved order until every call has returned or thrown. If \<open>N > 0\<close>
  of the calls succeeded, the collection holds exactly one bucket for the minute, with
  \<^verbatim>\<open>recordCount = N\<close> and \<open>N\<close> records. If moreover the database rejects no counter update
  and no two calls were at any moment both about to add an entry for the same key to the
  same counter, the \<^verbatim>\<open>routes\<close> counts and the \<^verbatim>\<open>nameFrequency\<close> counts each sum to \<open>N\<close>.
\<close>

theorem appends_same_minute:
  assumes "key \<notin> set (map minuteBucket db)"
    and "\<forall>(env, messageData)\<in>set calls. minuteBucket (createMinuteBucket rt (now env)) = key"
    and "run rt sched (map (\<lambda>(env, messageData). invoke env messageData) calls) db = (cs', db')"
    and "list_all finished cs'"
    and "length (filter succeeded cs') = N" and "0 < N"
  shows "\<exists>b. filter (\<lambda>b. minuteBucket b = key) db' = [b]
           \<and> recordCount b = N \<and> length (records b) = N
           \<and> ((\<forall>(env, messageData)\<in>set calls. counters_reachable env)
                \<and> race_free rt sched (map (\<lambda>(env, messageData). invoke env messageData) calls) db
              \<longrightarrow> sum_list (map snd (routes b)) = N
                  \<and> sum_list (map snd (nameFrequency b)) = N)"
proof -
  let ?cs = "map (\<lambda>(env, messageData). invoke env messageData) calls"
  let ?reach = "(\<forall>(env, messageData)\<in>set calls. counters_reachable env) \<and> race_free rt sched ?cs db"
  have t: "\<forall>c\<in>set ?cs. bucket_key rt c = key \<and> (?reach \<longrightarrow> counters_reachable (inv_env c))"
    using assms(2) by (auto simp: bucket_key_def invoke_def)
  have c: "?reach \<longrightarrow> counters_inv key ?cs db \<and> race_free rt sched ?cs db"
    using invoked_invariants(2) [OF assms(1)] by simp
  from run_invariants [OF invoked_invariants(1) [OF assms(1)] c t assms(3)]
  have r': "records_inv key cs' db'" and c': "?reach \<longrightarrow> counters_inv key cs' db'"
    by simp_all
  from assms(4) have w: "filter wrote cs' = filter succeeded cs'"
    by (intro filter_cong refl finished_wrote) (simp add: list_all_iff)
  from assms(4) have rc: "filter (route_counted b) cs' = filter succeeded cs'" for b
    by (intro filter_cong refl finished_route_counted) (simp add: list_all_iff)
  from assms(4) have nc: "filter (name_counted b) cs' = filter succeeded cs'" for b
    by (intro filter_cong refl finished_name_counted) (simp add: list_all_iff)
  from assms(5,6) have "filter succeeded cs' \<noteq> []" by auto
  then obtain c0 where "c0 \<in> set cs'" "wrote c0"
    using w by (metis filter_empty_conv)
  with r' assms(5) w obtain b where b: "filter (\<lambda>b. minuteBucket b = key) db' = [b]"
    and n: "recordCount b = N" "length (records b) = N"
    by (auto simp: records_inv_def list_all_iff split: list.splits)
  from c' b rc nc assms(5)
  have "?reach \<longrightarrow> sum_list (map snd (routes b)) = N \<and> sum_list (map snd (nameFrequency b)) = N"
    by (simp add: counters_inv_def)
  with b n show ?thesis by blast
qed

theorem appends_same_minute_witness:
  "\<forall>sha256 keystream. \<exists>cs' db' b.
     run (example_runtime sha256 keystream) [0, 0, 1, 0, 1, 0, 1, 0, 1, 0, 1, 1]
       (map (\<lambda>(env, messageData). invoke env messageData) example_calls) [] = (cs', db')
     \<and> list_all finished cs' \<and> length (filter succeeded cs') = 2
     \<and> race_free (example_runtime sha256 keystream) [0, 0, 1, 0, 1, 0, 1, 0, 1, 0, 1, 1]
          (map (\<lambda>(env, messageData). invoke env messageData) example_calls) []
     \<and> filter (\<lambda>b. minuteBucket b = ascii ''2023-11-14T22:13'') db' = [b]
     \<and> recordCount b = 2 \<and> length (records b) = 2
     \<and> sum_list (map snd (routes b)) = 2
     \<and> sum_list (map snd (nameFrequency b)) = 2"
proof (intro allI)
  fix sha256 :: "jsstring \<Rightarrow> jsstring" and keystream :: "byte list \<Rightarrow> nat \<Rightarrow> byte"
  let ?rt = "example_runtime sha256 keystream"
  let ?sched = "[0, 0, 1, 0, 1, 0, 1, 0, 1, 0, 1, 1] :: nat list"
  let ?cs = "map (\<lambda>(env, messageData). invoke env messageData) example_calls"
  obtain cs' db' where run: "run ?rt ?sched ?cs [] = (cs', db')"
    by (cases "run ?rt ?sched ?cs []")
  have fin: "list_all finished cs'"
    using example_run_finished [of sha256 keystream] run by simp
  have n: "length (filter succeeded cs') = 2"
    using example_run_succeeded [of sha256 keystream] run by simp
  have rf: "race_free ?rt ?sched ?cs []"
    by (rule example_run_race_free)
  have k: "\<forall>(env, messageData)\<in>set example_calls.
             minuteBucket (createMinuteBucket ?rt (now env)) = ascii ''2023-11-14T22:13''"
    by (simp add: createMinuteBucket_def example_runtime_def example_calls_def ascii_def)
  have cr: "\<forall>(env, messageData)\<in>set example_calls. counters_reachable env"
    by (simp add: example_calls_def example_env_def counters_reachable_def)
  have e: "ascii ''2023-11-14T22:13'' \<notin> set (map minuteBucket [])" by simp
  from appends_same_minute [OF e k run fin n] cr rf run fin n
  show "\<exists>cs' db' b. run ?rt ?sched ?cs [] = (cs', db')
     \<and> list_all finished cs' \<and> length (filter succeeded cs') = 2
     \<and> race_free ?rt ?sched ?cs []
     \<and> filter (\<lambda>b. minuteBucket b = ascii ''2023-11-14T22:13'') db' = [b]
     \<and> recordCount b = 2 \<and> length (records b) = 2
     \<and> sum_list (map snd (routes b)) = 2
     \<and> sum_list (map snd (nameFrequency b)) = 2"
    by auto
qed

text \<open>
  C4 as stated fails: \<^verbatim>\<open>updateAggregatedData\<close> catches and logs a rejected counter update,
  so \<^verbatim>\<open>addRecord\<close> still succeeds. After one successful append whose first counter update is
  rejected, the bucket has \<^verbatim>\<open>recordCount = 1\<close> and empty counters.
\<close>

theorem appends_same_minute_counterexample:
  "\<forall>sha256 keystream.
     addRecord (example_runtime sha256 keystream) (example_env\<lparr>route_inc_fails := True\<rparr>)
       example_fields []
       = (Inr (Some example_bucket), [example_bucket])
     \<and> recordCount example_bucket = 1
     \<and> sum_list (map snd (routes example_bucket)) = 0
     \<and> sum_list (map snd (nameFrequency example_bucket)) = 0"
  by (simp add: addRecord_def write_record_def cast_record_def createMinuteBucket_def
      findOne_def create_def updateAggregatedData_def Let_def lookup_def
      example_runtime_def example_env_def example_castString_def example_fields_def
      example_bucket_def bucket_info.defs bucket.defs ascii_def chr_def)

text \<open>
  The condition on the interleaving cannot be dropped. When both calls run their increment
  before either runs its push, both increments find no entry and only the first push
  matches its filter: two records, and counts that sum to 1.
\<close>

lemma interleaved_updates_race:
  "(case run (example_runtime sha256 keystream) [0, 0, 1, 1, 0, 1, 0, 1, 0, 1, 0, 1]
           (map (\<lambda>(env, messageData). invoke env messageData) example_calls) [] of
      (cs', db') \<Rightarrow>
        list_all finished cs' \<and> length (filter succeeded cs') = 2
        \<and> map (\<lambda>b. (recordCount b, length (records b), sum_list (map snd (routes b)),
                     sum_list (map snd (nameFrequency b))))
              (filter (\<lambda>b. minuteBucket b = ascii ''2023-11-14T22:13'') db')
            = [(2, 2, 1, 1)])
   \<and> \<not> race_free (example_runtime sha256 keystream) [0, 0, 1, 1, 0, 1, 0, 1, 0, 1, 0, 1]
          (map (\<lambda>(env, messageData). invoke env messageData) example_calls) []"
  by (simp add: example_eval clash_free_def clash_def pending_route_def pending_name_def
      bucket_key_def del: decimal.simps)

section \<open>Properties of the producer\<close>


lemma failed_retry_waiting:
  assumes "waiting a e" and "a < maxReconnectAttempts e"
  shows "waiting (Suc a) (failed_retry f e)"
    and "maxReconnectAttempts (failed_retry f e) = maxReconnectAttempts e"
  using assms
  by (auto simp: waiting_def failed_retry_def reconnect_timer_fires_def connect_def
      on_connect_error_def scheduleReconnect_def)

lemma failed_retry_stops:
  assumes "waiting a e" and "a = maxReconnectAttempts e"
  shows "stopped (failed_retry f e)"
  using assms
  by (auto simp: waiting_def stopped_def failed_retry_def reconnect_timer_fires_def connect_def
      on_connect_error_def scheduleReconnect_def stop_def stopPeriodicMessaging_def Let_def)

lemma failed_attempts_waiting:
  assumes "waiting a e" and "a + length fs \<le> maxReconnectAttempts e"
  shows "waiting (a + length fs) (failed_attempts fs e)
    \<and> maxReconnectAttempts (failed_attempts fs e) = maxReconnectAttempts e"
  using assms
proof (induction fs arbitrary: a e)
  case Nil
  then show ?case by simp
next
  case (Cons f fs)
  from Cons.prems have lt: "a < maxReconnectAttempts e" by simp
  note step = failed_retry_waiting [OF Cons.prems(1) lt, of f]
  from Cons.prems(2) step(2) have "Suc a + length fs \<le> maxReconnectAttempts (failed_retry f e)"
    by simp
  from Cons.IH [OF step(1) this] step(2) show ?case by simp
qed

lemma failed_attempts_stop:
  assumes "waiting a e" and "a + length fs = maxReconnectAttempts e + 1"
    and "a \<le> maxReconnectAttempts e"
  shows "stopped (failed_attempts fs e)"
proof -
  from assms(2,3) obtain gs g where fs: "fs = gs @ [g]"
    by (cases fs rule: rev_cases) auto
  with assms(2) have len: "a + length gs = maxReconnectAttempts e" by simp
  then have "a + length gs \<le> maxReconnectAttempts e" by simp
  from failed_attempts_waiting [OF assms(1) this] len
  have w: "waiting (maxReconnectAttempts (failed_attempts gs e)) (failed_attempts gs e)" by simp
  have app: "failed_attempts (xs @ ys) s = failed_attempts ys (failed_attempts xs s)" for xs ys s
    by (induction xs arbitrary: s) simp_all
  from failed_retry_stops [OF w refl, of g] show ?thesis
    by (simp add: fs app)
qed

lemma stopped_stays:
  "stopped e \<Longrightarrow> failed_retry f e = e \<and> reconnect_timer_fires f e = e \<and> interval_fires e = e"
  by (simp add: stopped_def failed_retry_def reconnect_timer_fires_def interval_fires_def)



lemma failed_start_step:
  assumes "reconnectAttempts e = 0" and "pendingReconnects e = 0"
    and "\<not> intervalActive e" and "\<not> isConnected e"
  shows "maxReconnectAttempts e = 0 \<Longrightarrow> stopped (failed_start f e)"
    and "0 < maxReconnectAttempts e \<Longrightarrow> waiting 1 (failed_start f e)"
    and "maxReconnectAttempts (failed_start f e) = maxReconnectAttempts e"
  using assms
  by (auto simp: waiting_def stopped_def failed_start_def start_def connect_def
      on_connect_error_def scheduleReconnect_def stop_def stopPeriodicMessaging_def Let_def)

lemma on_disconnect_step:
  assumes "reconnectAttempts e = 0" and "pendingReconnects e = 0"
    and "0 < maxReconnectAttempts e"
  shows "waiting 1 (on_disconnect other_reason e)"
    and "maxReconnectAttempts (on_disconnect other_reason e) = maxReconnectAttempts e"
  using assms
  by (auto simp: waiting_def on_disconnect_def scheduleReconnect_def stopPeriodicMessaging_def Let_def)

text \<open>
  C9, as amended. Counted from \<^verbatim>\<open>start\<close> on an emitter that is idle, every one of the first
  \<^verbatim>\<open>maxReconnectAttempts\<close> consecutive failed connection attempts leaves the attempt count
  equal to the number of failures and a reconnect timer pending; failure number
  \<^verbatim>\<open>maxReconnectAttempts + 1\<close> reaches the stopped state (no socket, periodic timer
  cancelled, no reconnect timer pending), in which no timer callback changes anything.
  After the loss of an established connection, \<^verbatim>\<open>maxReconnectAttempts\<close> consecutive failed
  attempts reach it, the disconnect having counted as one. A successful connection
  resets the count to 0.
\<close>

theorem reconnect_exhaustion:
  assumes "reconnectAttempts e = 0" and "pendingReconnects e = 0"
    and "\<not> intervalActive e" and "\<not> isConnected e"
  shows "(0 < length fs \<and> length fs \<le> maxReconnectAttempts e
            \<longrightarrow> waiting (length fs) (failed_from_start fs e))
     \<and> (length fs = maxReconnectAttempts e + 1 \<longrightarrow> stopped (failed_from_start fs e))
     \<and> (stopped s \<longrightarrow> failed_retry f s = s \<and> reconnect_timer_fires f s = s \<and> interval_fires s = s)
     \<and> (reconnectAttempts c = 0 \<and> pendingReconnects c = 0
          \<and> length gs = maxReconnectAttempts c \<and> 0 < maxReconnectAttempts c
            \<longrightarrow> stopped (failed_attempts gs (on_disconnect other_reason c)))
     \<and> reconnectAttempts (on_connect c) = 0"
proof (intro conjI impI)
  assume len: "0 < length fs \<and> length fs \<le> maxReconnectAttempts e"
  then obtain g gs where fs: "fs = g # gs" by (cases fs) auto
  with len have pos: "0 < maxReconnectAttempts e" by simp
  note first = failed_start_step(2,3) [OF assms, of g]
  from len fs first(2) have "1 + length gs \<le> maxReconnectAttempts (failed_start g e)" by simp
  from failed_attempts_waiting [OF first(1) [OF pos] this] fs
  show "waiting (length fs) (failed_from_start fs e)" by simp
next
  assume len: "length fs = maxReconnectAttempts e + 1"
  then obtain g gs where fs: "fs = g # gs" by (cases fs) auto
  show "stopped (failed_from_start fs e)"
  proof (cases "maxReconnectAttempts e = 0")
    case True
    with len fs have "gs = []" by simp
    with failed_start_step(1) [OF assms True, of g] fs show ?thesis by simp
  next
    case False
    then have pos: "0 < maxReconnectAttempts e" by simp
    note first = failed_start_step(2,3) [OF assms, of g]
    from len fs first(2) have l: "1 + length gs = maxReconnectAttempts (failed_start g e) + 1"
      by simp
    from pos first(2) have "1 \<le> maxReconnectAttempts (failed_start g e)" by simp
    from failed_attempts_stop [OF first(1) [OF pos] l this] fs show ?thesis by simp
  qed
next
  assume "stopped s"
  then show "failed_retry f s = s" "reconnect_timer_fires f s = s" "interval_fires s = s"
    using stopped_stays by blast+
next
  assume c: "reconnectAttempts c = 0 \<and> pendingReconnects c = 0
          \<and> length gs = maxReconnectAttempts c \<and> 0 < maxReconnectAttempts c"
  then have c0: "reconnectAttempts c = 0" "pendingReconnects c = 0" "0 < maxReconnectAttempts c"
    by simp_all
  note lost = on_disconnect_step [OF c0]
  from c lost(2) have l: "1 + length gs = maxReconnectAttempts (on_disconnect other_reason c) + 1"
    by simp
  from c lost(2) have "1 \<le> maxReconnectAttempts (on_disconnect other_reason c)" by simp
  from failed_attempts_stop [OF lost(1) l this]
  show "stopped (failed_attempts gs (on_disconnect other_reason c))" .
next
  show "reconnectAttempts (on_connect c) = 0"
    by (simp add: on_connect_def startPeriodicMessaging_def sendMessageStream_def)
qed

theorem reconnect_exhaustion_witness:
  "waiting 3 (failed_from_start [False, True, False] new_emitter)
   \<and> stopped (failed_from_start (replicate 11 False) new_emitter)
   \<and> failed_retry False (failed_from_start (replicate 11 False) new_emitter)
       = failed_from_start (replicate 11 False) new_emitter
   \<and> stopped (failed_attempts (replicate 10 False) (on_disconnect other_reason (on_connect (start False new_emitter))))
   \<and> reconnectAttempts (on_connect (start False new_emitter)) = 0"
proof -
  have i: "reconnectAttempts new_emitter = 0" "pendingReconnects new_emitter = 0"
    "\<not> intervalActive new_emitter" "\<not> isConnected new_emitter"
    and m: "maxReconnectAttempts new_emitter = 10"
    by (simp_all add: new_emitter_def)
  let ?c = "on_connect (start False new_emitter)"
  have c: "reconnectAttempts ?c = 0" "pendingReconnects ?c = 0" "maxReconnectAttempts ?c = 10"
    by (simp_all add: on_connect_def startPeriodicMessaging_def sendMessageStream_def
        start_def connect_def new_emitter_def)
  note t1 = reconnect_exhaustion [OF i, of "[False, True, False]"
      "failed_from_start (replicate 11 False) new_emitter" False ?c "replicate 10 False"]
  note t2 = reconnect_exhaustion [OF i, of "replicate 11 False"
      "failed_from_start (replicate 11 False) new_emitter" False ?c "replicate 10 False"]
  from t1 t2 m c show ?thesis by (simp add: numeral_3_eq_3)
qed

text \<open>
  C9 as stated fails for the attempts counted from \<^verbatim>\<open>start\<close>: with the constructor's limit
  of 10, after 10 consecutive failed attempts the emitter still holds a socket and a
  pending reconnect timer.
\<close>

theorem reconnect_exhaustion_counterexample:
  "maxReconnectAttempts new_emitter = 10
   \<and> \<not> stopped (failed_from_start (replicate 10 False) new_emitter)
   \<and> pendingReconnects (failed_from_start (replicate 10 False) new_emitter) = 1
   \<and> hasSocket (failed_from_start (replicate 10 False) new_emitter)"
  by code_simp

end
